theory Spec2Isabelle
  imports Complex_Main "HOL-Library.Word" "HOL-Library.List_Lexorder"
begin

section \<open>Strings of the host language\<close>

text \<open>
  A string of the program is a sequence of UTF-16 code units; \<open>length\<close>, comparison,
  \<open>trim\<close> and \<open>split\<close> all work on code units. The order on \<open>jsstring\<close> is the
  lexicographic order on code units (a proper prefix is smaller), which is the order
  of \<open>Array.prototype.sort\<close> without a comparator and of \<open><\<close> on strings.
\<close>

type_synonym jsstring = "16 word list"

definition lit :: "string \<Rightarrow> jsstring" where
  \<comment> \<open>a string literal of the source, for code units below 256\<close>
  "lit s = map of_char s"

definition isWhiteSpace :: "16 word \<Rightarrow> bool" where
  \<comment> \<open>the WhiteSpace and LineTerminator code points stripped by \<open>String.prototype.trim\<close>\<close>
  "isWhiteSpace c =
     (c = 0x09 \<or> c = 0x0A \<or> c = 0x0B \<or> c = 0x0C \<or> c = 0x0D \<or> c = 0x20 \<or> c = 0xA0
      \<or> c = 0x1680 \<or> (0x2000 \<le> c \<and> c \<le> 0x200A) \<or> c = 0x2028 \<or> c = 0x2029
      \<or> c = 0x202F \<or> c = 0x205F \<or> c = 0x3000 \<or> c = 0xFEFF)"

definition trim :: "jsstring \<Rightarrow> jsstring" where
  "trim s = rev (dropWhile isWhiteSpace (rev (dropWhile isWhiteSpace s)))"

fun split_newline :: "jsstring \<Rightarrow> jsstring list" where
  \<comment> \<open>\<open>s.split(/\n/)\<close>: the empty string gives one empty piece\<close>
  "split_newline [] = [[]]"
| "split_newline (c # cs) =
     (if c = 0x0A then [] # split_newline cs
      else (case split_newline cs of
              l # ls \<Rightarrow> (c # l) # ls
            | [] \<Rightarrow> [[c]]))"

definition normalize_lines :: "jsstring \<Rightarrow> jsstring list" where
  \<comment> \<open>\<open>text.split(/\n/).map(l => l.trim()).filter(l => l !== '')\<close>, as every tool starts\<close>
  "normalize_lines raw = filter (\<lambda>l. l \<noteq> []) (map trim (split_newline raw))"

section \<open>The built-in Set\<close>

text \<open>
  \<open>new Set(xs)\<close> keeps the first occurrence of every value and iterates in insertion
  order. It is modelled as the list of its elements in that order.
\<close>

definition Set_add :: "'a list \<Rightarrow> 'a \<Rightarrow> 'a list" where
  "Set_add s x = (if x \<in> set s then s else s @ [x])"

definition Set_from :: "'a list \<Rightarrow> 'a list" where
  "Set_from xs = foldl Set_add [] xs"

section \<open>Comparator\<close>

record comparison_stats =
  inBoth :: nat
  inAOnly :: nat
  inBOnly :: nat
  totalA :: nat
  totalB :: nat

record ComparisonResult =
  intersection :: "jsstring list"
  aOnly :: "jsstring list"
  bOnly :: "jsstring list"
  stats :: comparison_stats

definition classifyA :: "jsstring list \<Rightarrow> jsstring list \<times> jsstring list \<Rightarrow> jsstring
    \<Rightarrow> jsstring list \<times> jsstring list" where
  \<comment> \<open>body of \<open>setA.forEach\<close>: the accumulator is \<open>(intersection, aOnly)\<close>\<close>
  "classifyA setB acc item =
     (if item \<in> set setB then (fst acc @ [item], snd acc) else (fst acc, snd acc @ [item]))"

definition classifyB :: "jsstring list \<Rightarrow> jsstring list \<Rightarrow> jsstring \<Rightarrow> jsstring list" where
  \<comment> \<open>body of \<open>setB.forEach\<close>: the accumulator is \<open>bOnly\<close>\<close>
  "classifyB setA acc item = (if item \<notin> set setA then acc @ [item] else acc)"

definition handleCompare :: "jsstring \<Rightarrow> jsstring \<Rightarrow> ComparisonResult" where
  "handleCompare listA listB =
     (let setA = Set_from (normalize_lines listA);
          setB = Set_from (normalize_lines listB);
          ia = foldl (classifyA setB) ([], []) setA;
          b = foldl (classifyB setA) [] setB
      in \<lparr> intersection = sort (fst ia),
           aOnly = sort (snd ia),
           bOnly = sort b,
           stats = \<lparr> inBoth = length (fst ia),
                     inAOnly = length (snd ia),
                     inBOnly = length b,
                     totalA = length setA,
                     totalB = length setB \<rparr> \<rparr>)"

definition similarity_divisor :: "comparison_stats \<Rightarrow> int" where
  \<comment> \<open>\<open>totalA + totalB - inBoth || 1\<close>\<close>
  "similarity_divisor st =
     (let d = int (totalA st) + int (totalB st) - int (inBoth st)
      in if d = 0 then 1 else d)"

text \<open>
  The score is computed in double arithmetic. A result of \<open>/\<close> or \<open>*\<close> is a finite
  number, an infinity or \<open>NaN\<close>: a zero divisor gives \<open>NaN\<close> for a zero dividend and
  an infinity otherwise. \<open>rnd\<close> is the rounding of the exact result to a double; the
  operands of the division are integers, and the quantities here are far from the
  overflow threshold.
\<close>

datatype double = Finite real | PlusInfinity | MinusInfinity | NotANumber

definition js_divide :: "(real \<Rightarrow> real) \<Rightarrow> int \<Rightarrow> int \<Rightarrow> double" where
  \<comment> \<open>the operator \<open>/\<close> on integer-valued numbers\<close>
  "js_divide rnd a b =
     (if b = 0
      then (if a = 0 then NotANumber else if 0 < a then PlusInfinity else MinusInfinity)
      else Finite (rnd (real_of_int a / real_of_int b)))"

definition js_times :: "(real \<Rightarrow> real) \<Rightarrow> double \<Rightarrow> real \<Rightarrow> double" where
  \<comment> \<open>the operator \<open>*\<close> with a finite right operand\<close>
  "js_times rnd v y =
     (case v of
        Finite x \<Rightarrow> Finite (rnd (x * y))
      | NotANumber \<Rightarrow> NotANumber
      | PlusInfinity \<Rightarrow>
          (if y = 0 then NotANumber else if 0 < y then PlusInfinity else MinusInfinity)
      | MinusInfinity \<Rightarrow>
          (if y = 0 then NotANumber else if 0 < y then MinusInfinity else PlusInfinity))"

definition similarity :: "(real \<Rightarrow> real) \<Rightarrow> comparison_stats \<Rightarrow> double" where
  \<comment> \<open>\<open>(inBoth / (totalA + totalB - inBoth || 1)) * 100\<close>, the number handed to
      \<open>toFixed(1)\<close>; the formatting by \<open>toFixed\<close> is not modelled\<close>
  "similarity rnd st =
     js_times rnd (js_divide rnd (int (inBoth st)) (similarity_divisor st)) 100"

section \<open>Batcher\<close>

datatype SplitMode = size_mode | count_mode  \<comment> \<open>\<open>'size' | 'count'\<close>\<close>

datatype NamingScheme = numeric | alpha

record BatchSet =
  batch_id :: nat  \<comment> \<open>the field \<open>id\<close>\<close>
  items :: "jsstring list"

record ProcessedData =
  sets :: "BatchSet list"
  totalItems :: nat

definition slice :: "'a list \<Rightarrow> int \<Rightarrow> int \<Rightarrow> 'a list" where
  \<comment> \<open>\<open>Array.prototype.slice(start, end)\<close> on integer arguments: a negative index
      counts from the end, both indices are clamped to the array\<close>
  "slice xs start fin =
     (let len = int (length xs);
          k = (if start < 0 then max (len + start) 0 else min start len);
          final = (if fin < 0 then max (len + fin) 0 else min fin len)
      in take (nat (final - k)) (drop (nat k) xs))"

definition fromCharCode :: "int \<Rightarrow> 16 word" where
  "fromCharCode n = word_of_int n"

definition js_rem :: "int \<Rightarrow> int \<Rightarrow> int" where
  \<comment> \<open>the operator \<open>%\<close> on integers: the result has the sign of the dividend\<close>
  "js_rem a b = sgn a * (\<bar>a\<bar> mod \<bar>b\<bar>)"

function getAlphaLabel_loop :: "int \<Rightarrow> jsstring \<Rightarrow> jsstring" where
  \<comment> \<open>the \<open>while (i > 0)\<close> loop; \<open>Math.floor((i - 1) / 26)\<close> is \<open>(i - 1) div 26\<close>\<close>
  "getAlphaLabel_loop i label =
     (if i > 0
      then getAlphaLabel_loop ((i - 1) div 26) (fromCharCode (65 + js_rem (i - 1) 26) # label)
      else label)"
  by pat_completeness auto
termination
  by (relation "measure (\<lambda>(i, label). nat i)") auto

declare getAlphaLabel_loop.simps [simp del]

definition getAlphaLabel :: "int \<Rightarrow> jsstring" where
  "getAlphaLabel index = getAlphaLabel_loop (index + 1) []"

function decimal :: "nat \<Rightarrow> jsstring" where
  "decimal n = (if n < 10 then [48 + of_nat n] else decimal (n div 10) @ [48 + of_nat (n mod 10)])"
  by pat_completeness auto
termination
  by (relation "measure (\<lambda>n. n)") auto

declare decimal.simps [simp del]

definition Number_toString :: "int \<Rightarrow> jsstring" where
  \<comment> \<open>the string of an integer-valued number inside a template literal; exact below
      \<open>10^21\<close> in absolute value, where the host language still prints all digits\<close>
  "Number_toString n = (if n < 0 then 45 # decimal (nat (- n)) else decimal (nat n))"

definition isUpperLetter :: "16 word \<Rightarrow> bool" where
  "isUpperLetter c = (0x41 \<le> c \<and> c \<le> 0x5A)"

definition letters_value :: "jsstring \<Rightarrow> int" where
  \<comment> \<open>bijective base 26, as the specification words it: the number a string of letters
      denotes when \<open>A\<close> to \<open>Z\<close> are the digits 1 to 26 and there is no digit zero\<close>
  "letters_value s = foldl (\<lambda>v c. 26 * v + (uint c - 64)) 0 s"

definition setLabel :: "NamingScheme \<Rightarrow> BatchSet \<Rightarrow> jsstring" where
  "setLabel namingScheme s =
     (if namingScheme = numeric
      then lit ''Set '' @ Number_toString (int (batch_id s) + 1)
      else lit ''Set '' @ getAlphaLabel (int (batch_id s)))"

partial_function (option) batch_loop ::
    "jsstring list \<Rightarrow> int \<Rightarrow> int \<Rightarrow> BatchSet list \<Rightarrow> BatchSet list option" where
  \<comment> \<open>\<open>for (let i = 0; i < lines.length; i += setSize) sets.push(...)\<close>; \<open>None\<close> is
      a loop that never ends\<close>
  "batch_loop lines setSize i out =
     (if i < int (length lines)
      then batch_loop lines setSize (i + setSize)
             (out @ [\<lparr> batch_id = length out, items = slice lines i (i + setSize) \<rparr>])
      else Some out)"

declare batch_loop.simps [code]

definition processedData :: "jsstring \<Rightarrow> SplitMode \<Rightarrow> int \<Rightarrow> ProcessedData option" where
  "processedData inputText mode inputValue =
     (let lines = normalize_lines inputText in
      if length lines = 0 then Some \<lparr> sets = [], totalItems = 0 \<rparr>
      else
        let setSize =
              (if mode = size_mode then max 1 inputValue
               else (let targetSets = max 1 inputValue
                     in \<lceil>real (length lines) / real_of_int targetSets\<rceil>))
        in case batch_loop lines setSize 0 [] of
             None \<Rightarrow> None
           | Some out \<Rightarrow> Some \<lparr> sets = out, totalItems = length lines \<rparr>)"

definition formatItem :: "bool \<Rightarrow> jsstring \<Rightarrow> nat \<Rightarrow> nat \<Rightarrow> jsstring \<Rightarrow> jsstring" where
  \<comment> \<open>the arrow function of \<open>items.map\<close> in \<open>copySet\<close>, applied to \<open>(item, idx)\<close>\<close>
  "formatItem useIndexing prefix offset idx item =
     (let indexStr = (if useIndexing
                      then Number_toString (int offset + int idx + 1) @ lit ''. '' else []);
          prefixStr = (if prefix \<noteq> [] then prefix @ lit '' '' else [])
      in indexStr @ prefixStr @ item)"

fun join :: "jsstring \<Rightarrow> jsstring list \<Rightarrow> jsstring" where
  "join sep [] = []"
| "join sep [x] = x"
| "join sep (x # y # ys) = x @ sep @ join sep (y # ys)"

definition copySet_items :: "bool \<Rightarrow> jsstring \<Rightarrow> jsstring list \<Rightarrow> nat \<Rightarrow> jsstring list" where
  "copySet_items useIndexing prefix its offset =
     map (\<lambda>(idx, item). formatItem useIndexing prefix offset idx item) (enumerate 0 its)"

definition copySet :: "bool \<Rightarrow> jsstring \<Rightarrow> jsstring list \<Rightarrow> nat \<Rightarrow> jsstring" where
  \<comment> \<open>the text that \<open>copySet\<close> writes to the clipboard\<close>
  "copySet useIndexing prefix its offset =
     join [0x0A] (copySet_items useIndexing prefix its offset)"

datatype exn = Error jsstring | SyntaxError | TypeError

function getFormattedCount_loop :: "nat \<Rightarrow> BatchSet list \<Rightarrow> nat \<Rightarrow> nat \<Rightarrow> exn + nat" where
  \<comment> \<open>\<open>for (let i = 0; i < setIndex; i++) prevCount += sets[i].items.length\<close>; reading
      \<open>.items\<close> of a missing element throws\<close>
  "getFormattedCount_loop setIndex ss i prevCount =
     (if i < setIndex
      then (if i < length ss
            then getFormattedCount_loop setIndex ss (i + 1) (prevCount + length (items (ss ! i)))
            else Inl TypeError)
      else Inr prevCount)"
  by pat_completeness auto
termination
  by (relation "measure (\<lambda>(setIndex, ss, i, prevCount). setIndex - i)") auto

declare getFormattedCount_loop.simps [simp del]

definition getFormattedCount :: "nat \<Rightarrow> BatchSet list \<Rightarrow> exn + nat" where
  "getFormattedCount setIndex ss = getFormattedCount_loop setIndex ss 0 0"

section \<open>Analyzer\<close>

subsection \<open>The object used as a counting table\<close>

text \<open>
  \<open>freqMap\<close> is an ordinary object created by \<open>{}\<close>, so its prototype is
  \<open>Object.prototype\<close>. Reading a key that is not an own property finds the properties
  of the prototype: eleven built-in functions and the accessor \<open>__proto__\<close>. The
  values that can arise are numbers, the built-in objects found through the prototype,
  and the strings made by adding \<open>1\<close> to such an object.
\<close>

datatype builtin = ObjectPrototype | PrototypeFunction jsstring

datatype prim =
    Undefined
  | NaN
  | Number int
  | Text builtin nat
      \<comment> \<open>the string of the built-in object (\<open>[object Object]\<close>, or the source text of
          the function) followed by that many characters \<open>1\<close>\<close>

datatype jsval = Prim prim | Builtin builtin

definition Object_prototype_functions :: "jsstring list" where
  "Object_prototype_functions =
     [lit ''constructor'', lit ''__defineGetter__'', lit ''__defineSetter__'',
      lit ''hasOwnProperty'', lit ''__lookupGetter__'', lit ''__lookupSetter__'',
      lit ''isPrototypeOf'', lit ''propertyIsEnumerable'', lit ''toString'',
      lit ''valueOf'', lit ''toLocaleString'']"

definition Object_prototype_names :: "jsstring list" where
  \<comment> \<open>every name that \<open>Object.prototype\<close> defines\<close>
  "Object_prototype_names = lit ''__proto__'' # Object_prototype_functions"

type_synonym jsobject = "(jsstring \<times> prim) list"
  \<comment> \<open>the own properties, in the order of their creation\<close>

definition get_property :: "jsobject \<Rightarrow> jsstring \<Rightarrow> jsval" where
  \<comment> \<open>\<open>obj[key]\<close>: an own property, else what the prototype has under that name\<close>
  "get_property obj key =
     (case map_of obj key of
        Some v \<Rightarrow> Prim v
      | None \<Rightarrow>
          if key = lit ''__proto__'' then Builtin ObjectPrototype
          else if key \<in> set Object_prototype_functions then Builtin (PrototypeFunction key)
          else Prim Undefined)"

definition truthy :: "jsval \<Rightarrow> bool" where
  "truthy v =
     (case v of
        Prim Undefined \<Rightarrow> False
      | Prim NaN \<Rightarrow> False
      | Prim (Number n) \<Rightarrow> n \<noteq> 0
      | Prim (Text b k) \<Rightarrow> True
      | Builtin b \<Rightarrow> True)"

definition or_else :: "jsval \<Rightarrow> jsval \<Rightarrow> jsval" where
  \<comment> \<open>the operator \<open>||\<close>\<close>
  "or_else a b = (if truthy a then a else b)"

definition plus_one :: "jsval \<Rightarrow> prim" where
  \<comment> \<open>\<open>v + 1\<close>: an object is first converted to its string, and a string is extended\<close>
  "plus_one v =
     (case v of
        Prim Undefined \<Rightarrow> NaN
      | Prim NaN \<Rightarrow> NaN
      | Prim (Number n) \<Rightarrow> Number (n + 1)
      | Prim (Text b k) \<Rightarrow> Text b (k + 1)
      | Builtin b \<Rightarrow> Text b 1)"

definition set_property :: "jsobject \<Rightarrow> jsstring \<Rightarrow> prim \<Rightarrow> jsobject" where
  \<comment> \<open>\<open>obj[key] = v\<close> for a primitive \<open>v\<close>: an own property keeps its place; the setter
      of \<open>__proto__\<close> ignores a value that is not an object; any other key becomes a new
      own property\<close>
  "set_property obj key v =
     (if key \<in> fst ` set obj then map (\<lambda>(k, w). if k = key then (k, v) else (k, w)) obj
      else if key = lit ''__proto__'' then obj
      else obj @ [(key, v)])"

definition count_line :: "jsobject \<Rightarrow> jsstring \<Rightarrow> jsobject" where
  \<comment> \<open>body of \<open>lines.forEach\<close>: \<open>freqMap[line] = (freqMap[line] || 0) + 1\<close>\<close>
  "count_line freqMap line =
     set_property freqMap line (plus_one (or_else (get_property freqMap line) (Prim (Number 0))))"

definition isDigit :: "16 word \<Rightarrow> bool" where
  "isDigit c = (0x30 \<le> c \<and> c \<le> 0x39)"

definition index_value :: "jsstring \<Rightarrow> int" where
  "index_value s = foldl (\<lambda>n c. 10 * n + uint (c - 0x30)) 0 s"

definition isArrayIndex :: "jsstring \<Rightarrow> bool" where
  \<comment> \<open>a key that is the canonical decimal string of an integer from 0 to \<open>2^32 - 2\<close>\<close>
  "isArrayIndex s =
     (s \<noteq> [] \<and> list_all isDigit s \<and> (length s = 1 \<or> hd s \<noteq> 0x30)
      \<and> index_value s \<le> 4294967294)"

definition Object_entries :: "jsobject \<Rightarrow> (jsstring \<times> prim) list" where
  \<comment> \<open>own properties in the order of enumeration: array indices in ascending numeric
      order, then the other keys in the order of their creation\<close>
  "Object_entries obj =
     sort_key (\<lambda>e. index_value (fst e)) (filter (\<lambda>e. isArrayIndex (fst e)) obj)
     @ filter (\<lambda>e. \<not> isArrayIndex (fst e)) obj"

subsection \<open>Sorting with a comparator\<close>

text \<open>
  \<open>Array.prototype.sort\<close> is stable. A comparator result that is \<open>NaN\<close> counts as
  \<open>0\<close>. When the comparator is consistent the result is fixed by the language, and
  insertion from the right computes it; for an inconsistent comparator the language
  leaves the order to the implementation, and the result below is one possible order.
\<close>

fun insert_sorted :: "('a \<Rightarrow> 'a \<Rightarrow> int) \<Rightarrow> 'a \<Rightarrow> 'a list \<Rightarrow> 'a list" where
  "insert_sorted cmp x [] = [x]"
| "insert_sorted cmp x (y # ys) =
     (if cmp x y \<le> 0 then x # y # ys else y # insert_sorted cmp x ys)"

definition Array_sort :: "('a \<Rightarrow> 'a \<Rightarrow> int) \<Rightarrow> 'a list \<Rightarrow> 'a list" where
  "Array_sort cmp xs = foldr (insert_sorted cmp) xs []"

definition SortCompare :: "('a \<Rightarrow> 'a \<Rightarrow> prim) \<Rightarrow> 'a \<Rightarrow> 'a \<Rightarrow> int" where
  "SortCompare comparefn x y = (case comparefn x y of Number n \<Rightarrow> n | _ \<Rightarrow> 0)"

definition minus :: "prim \<Rightarrow> prim \<Rightarrow> prim" where
  \<comment> \<open>the operator \<open>-\<close>: an operand that is not a number converts to \<open>NaN\<close>\<close>
  "minus a b = (case (a, b) of (Number m, Number n) \<Rightarrow> Number (m - n) | _ \<Rightarrow> NaN)"

definition greater_than :: "prim \<Rightarrow> int \<Rightarrow> bool" where
  \<comment> \<open>the operator \<open>>\<close> against a number\<close>
  "greater_than a n = (case a of Number m \<Rightarrow> m > n | _ \<Rightarrow> False)"

subsection \<open>The analysis\<close>

record FrequencyItem =
  title :: jsstring
  count :: prim

record analysis_stats =
  total_n :: nat  \<comment> \<open>the field \<open>total\<close>\<close>
  unique :: nat
  duplicates :: int
  processedAt :: jsstring

record AnalysisResult =
  stats_an :: analysis_stats  \<comment> \<open>the field \<open>stats\<close>\<close>
  uniqueList :: "jsstring list"
  duplicateList :: "jsstring list"
  frequencyMap :: "FrequencyItem list"

definition by_count_descending :: "FrequencyItem \<Rightarrow> FrequencyItem \<Rightarrow> prim" where
  \<comment> \<open>the comparator \<open>(a, b) => b.count - a.count\<close>\<close>
  "by_count_descending a b = minus (count b) (count a)"

definition handleAnalyze :: "jsstring \<Rightarrow> jsstring \<Rightarrow> AnalysisResult option" where
  \<comment> \<open>\<open>now\<close> is the time string of the clock; \<open>None\<close> is the early return that leaves
      the previous result in place\<close>
  "handleAnalyze now inputText =
     (if trim inputText = [] then None
      else
        let lines = normalize_lines inputText;
            total = length lines;
            uniqueSet = Set_from lines;
            unique = length uniqueSet;
            freqMap = foldl count_line [] lines;
            frequencyList =
              Array_sort (SortCompare by_count_descending)
                (map (\<lambda>(t, c). \<lparr> title = t, count = c \<rparr>) (Object_entries freqMap));
            duplicateList =
              map title (filter (\<lambda>item. greater_than (count item) 1) frequencyList)
        in Some \<lparr> stats_an = \<lparr> total_n = total, unique = unique,
                                duplicates = int total - int unique, processedAt = now \<rparr>,
                  uniqueList = sort uniqueSet,
                  duplicateList = duplicateList,
                  frequencyMap = frequencyList \<rparr>)"

subsection \<open>The frequency table, as the specification words it\<close>

definition numeric_count :: "prim \<Rightarrow> int" where
  "numeric_count c = (case c of Number n \<Rightarrow> n | _ \<Rightarrow> 0)"

definition count_table :: "jsstring list \<Rightarrow> jsstring list \<Rightarrow> FrequencyItem list" where
  \<comment> \<open>the given titles, each with its number of occurrences among the lines, sorted by
      descending count; titles of equal count keep the order in which they are given\<close>
  "count_table lines titles =
     sort_key (\<lambda>e. - numeric_count (count e))
       (map (\<lambda>t. \<lparr> title = t, count = Number (int (count_list lines t)) \<rparr>) titles)"

definition first_occurrence_table :: "jsstring list \<Rightarrow> FrequencyItem list" where
  \<comment> \<open>ties in the order of first occurrence in the input\<close>
  "first_occurrence_table lines = count_table lines (Set_from lines)"

definition counted :: "jsstring list \<Rightarrow> jsobject" where
  \<comment> \<open>every distinct line, in the order of first occurrence, with the number of its
      occurrences\<close>
  "counted ls = map (\<lambda>t. (t, Number (int (count_list ls t)))) (Set_from ls)"

definition enumeration_order :: "jsstring list \<Rightarrow> jsstring list" where
  \<comment> \<open>keys in the order in which an object enumerates them: array indices ascending,
      then the others as given\<close>
  "enumeration_order keys =
     sort_key index_value (filter isArrayIndex keys) @ filter (\<lambda>k. \<not> isArrayIndex k) keys"

section \<open>The built-in JSON parser\<close>

text \<open>
  \<open>JSON.parse\<close> follows the JSON grammar: a single value between optional white space.
  A number is kept as the text of its literal, and an object as the list of its members
  in the order written (the host object keeps the last of several equal keys).
  \<open>None\<close> stands for the \<open>SyntaxError\<close> that \<open>JSON.parse\<close> throws.
\<close>

datatype json =
    JNull
  | JBool bool
  | JNumber jsstring
  | JString jsstring
  | JArray "json list"
  | JObject "(jsstring \<times> json) list"

datatype token =
    TLBrace | TRBrace | TLBracket | TRBracket | TColon | TComma
  | TString jsstring | TNumber jsstring | TTrue | TFalse | TNull

definition isJSONWhiteSpace :: "16 word \<Rightarrow> bool" where
  "isJSONWhiteSpace c = (c = 0x09 \<or> c = 0x0A \<or> c = 0x0D \<or> c = 0x20)"

definition hex_digit :: "16 word \<Rightarrow> 16 word option" where
  "hex_digit c =
     (if 0x30 \<le> c \<and> c \<le> 0x39 then Some (c - 0x30)
      else if 0x61 \<le> c \<and> c \<le> 0x66 then Some (c - 0x61 + 10)
      else if 0x41 \<le> c \<and> c \<le> 0x46 then Some (c - 0x41 + 10)
      else None)"

definition hex4 :: "16 word \<Rightarrow> 16 word \<Rightarrow> 16 word \<Rightarrow> 16 word \<Rightarrow> 16 word option" where
  "hex4 h1 h2 h3 h4 =
     (case (hex_digit h1, hex_digit h2, hex_digit h3, hex_digit h4) of
        (Some a, Some b, Some c, Some d) \<Rightarrow> Some (((a * 16 + b) * 16 + c) * 16 + d)
      | _ \<Rightarrow> None)"

definition escape_char :: "16 word \<Rightarrow> 16 word option" where
  \<comment> \<open>the character after a backslash, \<open>u\<close> apart\<close>
  "escape_char e =
     (if e = 0x22 \<or> e = 0x5C \<or> e = 0x2F then Some e
      else if e = 0x62 then Some 0x08
      else if e = 0x66 then Some 0x0C
      else if e = 0x6E then Some 0x0A
      else if e = 0x72 then Some 0x0D
      else if e = 0x74 then Some 0x09
      else None)"

fun lex_string :: "jsstring \<Rightarrow> jsstring \<Rightarrow> (jsstring \<times> jsstring) option" where
  \<comment> \<open>the text after an opening quote: the string read (collected in reverse) and the rest\<close>
  "lex_string acc [] = None"
| "lex_string acc (c # cs) =
     (if c = 0x22 then Some (rev acc, cs)
      else if c = 0x5C then
        (case cs of
           [] \<Rightarrow> None
         | e # cs1 \<Rightarrow>
             if e = 0x75 then
               (case cs1 of
                  h1 # h2 # h3 # h4 # cs2 \<Rightarrow>
                    (case hex4 h1 h2 h3 h4 of
                       Some u \<Rightarrow> lex_string (u # acc) cs2
                     | None \<Rightarrow> None)
                | _ \<Rightarrow> None)
             else
               (case escape_char e of
                  Some x \<Rightarrow> lex_string (x # acc) cs1
                | None \<Rightarrow> None))
      else if c < 0x20 then None
      else lex_string (c # acc) cs)"

definition lex_int :: "jsstring \<Rightarrow> (jsstring \<times> jsstring) option" where
  \<comment> \<open>\<open>0\<close>, or a digit from 1 to 9 followed by digits\<close>
  "lex_int cs =
     (case cs of
        [] \<Rightarrow> None
      | d # r \<Rightarrow>
          if d = 0x30 then Some ([d], r)
          else if isDigit d then Some (d # takeWhile isDigit r, dropWhile isDigit r)
          else None)"

definition lex_digits :: "jsstring \<Rightarrow> jsstring \<Rightarrow> (jsstring \<times> jsstring) option" where
  \<comment> \<open>one digit at least, after the given lead\<close>
  "lex_digits lead cs =
     (if takeWhile isDigit cs = [] then None
      else Some (lead @ takeWhile isDigit cs, dropWhile isDigit cs))"

definition lex_frac :: "jsstring \<Rightarrow> (jsstring \<times> jsstring) option" where
  "lex_frac cs =
     (case cs of
        [] \<Rightarrow> Some ([], cs)
      | c # r \<Rightarrow> if c = 0x2E then lex_digits [c] r else Some ([], cs))"

definition lex_exp :: "jsstring \<Rightarrow> (jsstring \<times> jsstring) option" where
  "lex_exp cs =
     (case cs of
        [] \<Rightarrow> Some ([], cs)
      | c # r \<Rightarrow>
          if c = 0x65 \<or> c = 0x45 then
            (case r of
               [] \<Rightarrow> None
             | s # r1 \<Rightarrow> if s = 0x2B \<or> s = 0x2D then lex_digits [c, s] r1 else lex_digits [c] r)
          else Some ([], cs))"

definition lex_unsigned :: "jsstring \<Rightarrow> (jsstring \<times> jsstring) option" where
  "lex_unsigned cs =
     (case lex_int cs of
        None \<Rightarrow> None
      | Some (ip, r1) \<Rightarrow>
          (case lex_frac r1 of
             None \<Rightarrow> None
           | Some (fp, r2) \<Rightarrow>
               (case lex_exp r2 of
                  None \<Rightarrow> None
                | Some (ep, r3) \<Rightarrow> Some (ip @ fp @ ep, r3))))"

definition lex_number :: "jsstring \<Rightarrow> (jsstring \<times> jsstring) option" where
  "lex_number cs =
     (case cs of
        [] \<Rightarrow> None
      | c # r \<Rightarrow>
          if c = 0x2D then map_option (\<lambda>(t, rest). (c # t, rest)) (lex_unsigned r)
          else lex_unsigned cs)"

lemma lex_string_shorter: "lex_string acc cs = Some (s, rest) \<Longrightarrow> length rest < length cs"
proof (induction acc cs rule: lex_string.induct)
  case (1 acc)
  then show ?case by simp
next
  case (2 acc c cs)
  then show ?case
    by (auto split: if_splits list.splits option.splits) fastforce+
qed

lemma lex_digits_shorter: "lex_digits lead cs = Some (t, rest) \<Longrightarrow> length rest \<le> length cs"
  by (auto simp: lex_digits_def length_dropWhile_le split: if_splits)

lemma lex_unsigned_shorter: "lex_unsigned cs = Some (t, rest) \<Longrightarrow> length rest < length cs"
proof -
  assume a: "lex_unsigned cs = Some (t, rest)"
  then obtain ip r1 fp r2 ep where
    i: "lex_int cs = Some (ip, r1)" and f: "lex_frac r1 = Some (fp, r2)"
    and e: "lex_exp r2 = Some (ep, rest)"
    by (auto simp: lex_unsigned_def split: option.splits)
  have "length r1 < length cs"
    using i length_dropWhile_le [of isDigit "tl cs"]
    by (auto simp: lex_int_def split: list.splits if_splits)
  moreover have "length r2 \<le> length r1"
    using f by (auto simp: lex_frac_def split: list.splits if_splits dest!: lex_digits_shorter)
  moreover have "length rest \<le> length r2"
    using e by (auto simp: lex_exp_def split: list.splits if_splits dest!: lex_digits_shorter)
  ultimately show ?thesis by simp
qed

lemma lex_number_shorter: "lex_number cs = Some (t, rest) \<Longrightarrow> length rest < length cs"
  by (auto simp: lex_number_def split: list.splits if_splits dest!: lex_unsigned_shorter)

function lex :: "token list \<Rightarrow> jsstring \<Rightarrow> token list option" where
  \<comment> \<open>the tokens of a text, collected in reverse\<close>
  "lex acc [] = Some (rev acc)"
| "lex acc (c # cs) =
     (if isJSONWhiteSpace c then lex acc cs
      else if c = 0x7B then lex (TLBrace # acc) cs
      else if c = 0x7D then lex (TRBrace # acc) cs
      else if c = 0x5B then lex (TLBracket # acc) cs
      else if c = 0x5D then lex (TRBracket # acc) cs
      else if c = 0x3A then lex (TColon # acc) cs
      else if c = 0x2C then lex (TComma # acc) cs
      else if c = 0x22 then
        (case lex_string [] cs of
           None \<Rightarrow> None
         | Some (s, rest) \<Rightarrow> lex (TString s # acc) rest)
      else if c = 0x2D \<or> isDigit c then
        (case lex_number (c # cs) of
           None \<Rightarrow> None
         | Some (t, rest) \<Rightarrow> lex (TNumber t # acc) rest)
      else if take 4 (c # cs) = lit ''true'' then lex (TTrue # acc) (drop 3 cs)
      else if take 5 (c # cs) = lit ''false'' then lex (TFalse # acc) (drop 4 cs)
      else if take 4 (c # cs) = lit ''null'' then lex (TNull # acc) (drop 3 cs)
      else None)"
  by pat_completeness auto
termination
  by (relation "measure (\<lambda>(acc, cs). length cs)")
     (auto dest: lex_string_shorter lex_number_shorter)

datatype frame =
    InArray "json list"
      \<comment> \<open>inside an array: the elements read so far, in reverse\<close>
  | InObject "(jsstring \<times> json) list" jsstring
      \<comment> \<open>inside an object, reading the value of a key: the members so far, in reverse\<close>

datatype pstate =
    WantValue "frame list"
  | WantValueOrClose "frame list"
  | WantKeyOrClose "frame list"
  | WantKey "(jsstring \<times> json) list" "frame list"
  | WantColon "(jsstring \<times> json) list" jsstring "frame list"
  | AfterValue json "frame list"

definition value_token :: "frame list \<Rightarrow> token \<Rightarrow> pstate option" where
  \<comment> \<open>a token where a value starts\<close>
  "value_token st t =
     (case t of
        TString s \<Rightarrow> Some (AfterValue (JString s) st)
      | TNumber n \<Rightarrow> Some (AfterValue (JNumber n) st)
      | TTrue \<Rightarrow> Some (AfterValue (JBool True) st)
      | TFalse \<Rightarrow> Some (AfterValue (JBool False) st)
      | TNull \<Rightarrow> Some (AfterValue JNull st)
      | TLBracket \<Rightarrow> Some (WantValueOrClose st)
      | TLBrace \<Rightarrow> Some (WantKeyOrClose st)
      | _ \<Rightarrow> None)"

definition parse_step :: "pstate \<Rightarrow> token \<Rightarrow> pstate option" where
  "parse_step p t =
     (case p of
        WantValue st \<Rightarrow> value_token st t
      | WantValueOrClose st \<Rightarrow>
          (if t = TRBracket then Some (AfterValue (JArray []) st)
           else value_token (InArray [] # st) t)
      | WantKeyOrClose st \<Rightarrow>
          (case t of
             TRBrace \<Rightarrow> Some (AfterValue (JObject []) st)
           | TString k \<Rightarrow> Some (WantColon [] k st)
           | _ \<Rightarrow> None)
      | WantKey ms st \<Rightarrow>
          (case t of TString k \<Rightarrow> Some (WantColon ms k st) | _ \<Rightarrow> None)
      | WantColon ms k st \<Rightarrow>
          (if t = TColon then Some (WantValue (InObject ms k # st)) else None)
      | AfterValue v st \<Rightarrow>
          (case st of
             [] \<Rightarrow> None
           | InArray es # st1 \<Rightarrow>
               (if t = TComma then Some (WantValue (InArray (v # es) # st1))
                else if t = TRBracket then Some (AfterValue (JArray (rev (v # es))) st1)
                else None)
           | InObject ms k # st1 \<Rightarrow>
               (if t = TComma then Some (WantKey ((k, v) # ms) st1)
                else if t = TRBrace then Some (AfterValue (JObject (rev ((k, v) # ms))) st1)
                else None)))"

fun parse_tokens :: "pstate \<Rightarrow> token list \<Rightarrow> json option" where
  "parse_tokens p [] = (case p of AfterValue v [] \<Rightarrow> Some v | _ \<Rightarrow> None)"
| "parse_tokens p (t # ts) =
     (case parse_step p t of None \<Rightarrow> None | Some q \<Rightarrow> parse_tokens q ts)"

definition JSON_parse :: "jsstring \<Rightarrow> json option" where
  "JSON_parse text =
     (case lex [] text of None \<Rightarrow> None | Some ts \<Rightarrow> parse_tokens (WantValue []) ts)"

section \<open>Categorization gateway\<close>

text \<open>
  The generative service is outside the program. A request is represented by the model
  name and the titles spliced into the prompt (the prompt is a fixed instruction
  around \<open>JSON.stringify(processedTitles)\<close>, and the response schema is a constant).
  The service answers a request with a rejection or with a response whose \<open>text\<close> is a
  string or is missing. The effects of a call are the requests sent and the errors
  written to the console.
\<close>

record GenerateContentRequest =
  model :: jsstring
  promptTitles :: "jsstring list"

type_synonym backend = "GenerateContentRequest \<Rightarrow> exn + jsstring option"

record gateway_effects =
  requests :: "GenerateContentRequest list"
  console :: "exn list"

definition handle_response :: "exn + jsstring option \<Rightarrow> exn + json" where
  \<comment> \<open>the body of the \<open>try\<close> block after the awaited call\<close>
  "handle_response response =
     (case response of
        Inl rejection \<Rightarrow> Inl rejection
      | Inr text \<Rightarrow>
          if text = None \<or> text = Some [] then Inl (Error (lit ''No response from AI''))
          else (case JSON_parse (the text) of
                  None \<Rightarrow> Inl SyntaxError
                | Some result \<Rightarrow> Inr result))"

definition categorizeTitles ::
    "backend \<Rightarrow> jsstring list \<Rightarrow> jsstring \<Rightarrow> (exn + json) \<times> gateway_effects" where
  "categorizeTitles ai titles apiKey =
     (if apiKey = [] then
        (Inl (Error (lit ''API Key is missing. Please configure it in the settings.'')),
         \<lparr> requests = [], console = [] \<rparr>)
      else if length titles = 0 then
        (Inr (JObject [(lit ''categories'', JArray [])]), \<lparr> requests = [], console = [] \<rparr>)
      else
        let processedTitles = slice titles 0 500;
            request = \<lparr> model = lit ''gemini-2.5-flash'', promptTitles = processedTitles \<rparr>
        in case handle_response (ai request) of
             Inl error \<Rightarrow> (Inl error, \<lparr> requests = [request], console = [error] \<rparr>)
           | Inr result \<Rightarrow> (Inr result, \<lparr> requests = [request], console = [] \<rparr>))"

definition replies :: "jsstring option \<Rightarrow> backend" where
  \<comment> \<open>a service that answers every request with the same response text\<close>
  "replies text request = Inr text"

subsection \<open>The response schema, as the specification words it\<close>

definition object_member :: "(jsstring \<times> json) list \<Rightarrow> jsstring \<Rightarrow> json option" where
  \<comment> \<open>the value of a key: the last one written\<close>
  "object_member ms k = map_of (rev ms) k"

definition is_string :: "json \<Rightarrow> bool" where
  "is_string v = (case v of JString s \<Rightarrow> True | _ \<Rightarrow> False)"

definition is_category :: "json \<Rightarrow> bool" where
  \<comment> \<open>an object with a string \<open>name\<close> and an array of strings \<open>items\<close>\<close>
  "is_category v =
     (case v of
        JObject ms \<Rightarrow>
          (case object_member ms (lit ''name'') of Some (JString n) \<Rightarrow> True | _ \<Rightarrow> False)
          \<and> (case object_member ms (lit ''items'') of
                Some (JArray xs) \<Rightarrow> list_all is_string xs
              | _ \<Rightarrow> False)
      | _ \<Rightarrow> False)"

definition matches_schema :: "json \<Rightarrow> bool" where
  \<comment> \<open>a top-level object with a \<open>categories\<close> array of categories\<close>
  "matches_schema v =
     (case v of
        JObject ms \<Rightarrow>
          (case object_member ms (lit ''categories'') of
             Some (JArray cs) \<Rightarrow> list_all is_category cs
           | _ \<Rightarrow> False)
      | _ \<Rightarrow> False)"

section \<open>Properties of the built-in Set and of the normalizer\<close>

lemma set_foldl_Set_add: "set (foldl Set_add acc xs) = set acc \<union> set xs"
  by (induction xs arbitrary: acc) (auto simp: Set_add_def)

lemma distinct_foldl_Set_add: "distinct acc \<Longrightarrow> distinct (foldl Set_add acc xs)"
  by (induction xs arbitrary: acc) (auto simp: Set_add_def)

lemma set_Set_from [simp]: "set (Set_from xs) = set xs"
  by (simp add: Set_from_def set_foldl_Set_add)

lemma distinct_Set_from [simp]: "distinct (Set_from xs)"
  by (simp add: Set_from_def distinct_foldl_Set_add)

lemma length_Set_from: "length (Set_from xs) = card (set xs)"
  using distinct_card [OF distinct_Set_from, of xs] by simp

section \<open>Properties of the comparator\<close>

lemma foldl_classifyA:
  "foldl (classifyA setB) acc xs =
     (fst acc @ filter (\<lambda>x. x \<in> set setB) xs, snd acc @ filter (\<lambda>x. x \<notin> set setB) xs)"
  by (induction xs arbitrary: acc) (auto simp: classifyA_def)

lemma foldl_classifyB:
  "foldl (classifyB setA) acc xs = acc @ filter (\<lambda>x. x \<notin> set setA) xs"
  by (induction xs arbitrary: acc) (auto simp: classifyB_def)

lemma handleCompare_intersection:
  "intersection (handleCompare a b) =
     sort (filter (\<lambda>x. x \<in> set (normalize_lines b)) (Set_from (normalize_lines a)))"
  by (simp add: handleCompare_def Let_def foldl_classifyA)

lemma handleCompare_aOnly:
  "aOnly (handleCompare a b) =
     sort (filter (\<lambda>x. x \<notin> set (normalize_lines b)) (Set_from (normalize_lines a)))"
  by (simp add: handleCompare_def Let_def foldl_classifyA)

lemma handleCompare_bOnly:
  "bOnly (handleCompare a b) =
     sort (filter (\<lambda>x. x \<notin> set (normalize_lines a)) (Set_from (normalize_lines b)))"
  by (simp add: handleCompare_def Let_def foldl_classifyB)

lemma handleCompare_stats:
  "stats (handleCompare a b) =
     \<lparr> inBoth = length (intersection (handleCompare a b)),
       inAOnly = length (aOnly (handleCompare a b)),
       inBOnly = length (bOnly (handleCompare a b)),
       totalA = card (set (normalize_lines a)),
       totalB = card (set (normalize_lines b)) \<rparr>"
  by (simp add: handleCompare_def Let_def foldl_classifyA foldl_classifyB length_Set_from)

lemma strict_sorted_sort: "distinct xs \<Longrightarrow> sorted_wrt (<) (sort xs)"
  by (simp add: strict_sorted_iff)

lemma length_filter_split:
  "length (filter P xs) + length (filter (\<lambda>x. \<not> P x) xs) = length xs"
  by (induction xs) auto

lemma handleCompare_example:
  "handleCompare (join [0x0A] [lit ''x'', lit ''y'', lit ''z''])
                 (join [0x0A] [lit ''y'', lit ''z'', lit ''w''])
   = \<lparr> intersection = [lit ''y'', lit ''z''], aOnly = [lit ''x''], bOnly = [lit ''w''],
       stats = \<lparr> inBoth = 2, inAOnly = 1, inBOnly = 1, totalA = 3, totalB = 3 \<rparr> \<rparr>"
  by code_simp

lemma intersection_commute:
  "intersection (handleCompare a b) = intersection (handleCompare b a)"
  unfolding handleCompare_intersection
  by (rule sorted_distinct_set_unique) auto

lemma inBoth_card:
  "inBoth (stats (handleCompare a b)) =
     card (set (normalize_lines a) \<inter> set (normalize_lines b))"
proof -
  let ?A = "set (normalize_lines a)" and ?B = "set (normalize_lines b)"
  have "set (intersection (handleCompare a b)) = ?A \<inter> ?B"
    by (auto simp: handleCompare_intersection)
  moreover have "distinct (intersection (handleCompare a b))"
    by (simp add: handleCompare_intersection)
  ultimately have "length (intersection (handleCompare a b)) = card (?A \<inter> ?B)"
    using distinct_card by fastforce
  then show ?thesis by (simp add: handleCompare_stats)
qed

lemma similarity_divisor_card:
  "int (totalA (stats (handleCompare a b))) + int (totalB (stats (handleCompare a b)))
     - int (inBoth (stats (handleCompare a b)))
   = int (card (set (normalize_lines a) \<union> set (normalize_lines b)))"
proof -
  let ?A = "set (normalize_lines a)" and ?B = "set (normalize_lines b)"
  have "card ?A + card ?B = card (?A \<union> ?B) + card (?A \<inter> ?B)"
    by (rule card_Un_Int) simp_all
  then show ?thesis
    by (simp add: inBoth_card) (simp add: handleCompare_stats)
qed

lemma similarity_finite:
  "similarity rnd st
   = Finite (rnd (rnd (real (inBoth st) / real_of_int (similarity_divisor st)) * 100))"
proof -
  have "similarity_divisor st \<noteq> 0"
    by (simp add: similarity_divisor_def Let_def)
  then show ?thesis
    by (simp add: similarity_def js_divide_def js_times_def)
qed

lemma similarity_handleCompare:
  "similarity rnd (stats (handleCompare a b)) =
     (if set (normalize_lines a) \<union> set (normalize_lines b) = {}
      then Finite (rnd (rnd 0 * 100))
      else Finite (rnd (rnd (real (card (set (normalize_lines a) \<inter> set (normalize_lines b)))
                     / real (card (set (normalize_lines a) \<union> set (normalize_lines b)))) * 100)))"
proof -
  let ?A = "set (normalize_lines a)" and ?B = "set (normalize_lines b)"
  let ?st = "stats (handleCompare a b)"
  have c: "(card (?A \<union> ?B) = 0) = (?A \<union> ?B = {})"
    by simp
  have dv: "similarity_divisor ?st = (if ?A \<union> ?B = {} then 1 else int (card (?A \<union> ?B)))"
    unfolding similarity_divisor_def Let_def similarity_divisor_card using c by simp
  have "?A \<union> ?B = {} \<Longrightarrow> inBoth ?st = 0"
    unfolding inBoth_card by simp
  then show ?thesis
    unfolding similarity_finite dv by (simp add: inBoth_card)
qed

text \<open>
  Claim C4. For all inputs A and B the three output lists of the comparator add up:
  the lengths of \<open>intersection\<close> and \<open>aOnly\<close> give \<open>totalA\<close>, those of \<open>intersection\<close>
  and \<open>bOnly\<close> give \<open>totalB\<close>, and \<open>totalA\<close>, \<open>totalB\<close> are the numbers of distinct
  lines of each side. The three lists are pairwise disjoint, together they hold
  exactly the lines of either side, and each is strictly ascending in the
  lexicographic order, whatever the order of the input: each is the sorted list of
  its set, so the result depends on the two sets of lines only.
\<close>

theorem comparator_partition:
  fixes listA listB
  defines "r \<equiv> handleCompare listA listB"
    and "A \<equiv> set (normalize_lines listA)" and "B \<equiv> set (normalize_lines listB)"
  shows "length (intersection r) + length (aOnly r) = totalA (stats r)
       \<and> length (intersection r) + length (bOnly r) = totalB (stats r)
       \<and> totalA (stats r) = card A \<and> totalB (stats r) = card B
       \<and> inBoth (stats r) = length (intersection r)
       \<and> inAOnly (stats r) = length (aOnly r)
       \<and> inBOnly (stats r) = length (bOnly r)
       \<and> set (intersection r) = A \<inter> B \<and> set (aOnly r) = A - B \<and> set (bOnly r) = B - A
       \<and> set (intersection r) \<inter> set (aOnly r) = {}
       \<and> set (intersection r) \<inter> set (bOnly r) = {}
       \<and> set (aOnly r) \<inter> set (bOnly r) = {}
       \<and> set (intersection r) \<union> set (aOnly r) \<union> set (bOnly r) = A \<union> B
       \<and> sorted_wrt (<) (intersection r) \<and> sorted_wrt (<) (aOnly r)
       \<and> sorted_wrt (<) (bOnly r)
       \<and> intersection r = sorted_list_of_set (A \<inter> B)
       \<and> aOnly r = sorted_list_of_set (A - B)
       \<and> bOnly r = sorted_list_of_set (B - A)"
proof -
  let ?sa = "Set_from (normalize_lines listA)" and ?sb = "Set_from (normalize_lines listB)"
  have i: "intersection r = sort (filter (\<lambda>x. x \<in> B) ?sa)"
    and a: "aOnly r = sort (filter (\<lambda>x. x \<notin> B) ?sa)"
    and b: "bOnly r = sort (filter (\<lambda>x. x \<notin> A) ?sb)"
    unfolding r_def A_def B_def
    by (rule handleCompare_intersection handleCompare_aOnly handleCompare_bOnly)+
  have st: "stats r = \<lparr> inBoth = length (intersection r), inAOnly = length (aOnly r),
       inBOnly = length (bOnly r), totalA = card A, totalB = card B \<rparr>"
    unfolding r_def A_def B_def by (rule handleCompare_stats)
  have cA: "card A = length ?sa" and cB: "card B = length ?sb"
    unfolding A_def B_def by (simp_all add: length_Set_from)
  have la: "length (intersection r) + length (aOnly r) = card A"
    unfolding i a cA using length_filter_split [of "\<lambda>x. x \<in> B" ?sa] by simp
  have ib: "intersection r = sort (filter (\<lambda>x. x \<in> A) ?sb)"
    unfolding i A_def B_def
    by (rule sorted_distinct_set_unique) (auto simp: A_def B_def)
  have lb: "length (intersection r) + length (bOnly r) = card B"
    unfolding ib b cB using length_filter_split [of "\<lambda>x. x \<in> A" ?sb] by simp
  have si: "set (intersection r) = A \<inter> B" unfolding i by (auto simp: A_def)
  have sa: "set (aOnly r) = A - B" unfolding a by (auto simp: A_def)
  have sb: "set (bOnly r) = B - A" unfolding b by (auto simp: B_def)
  have so: "sorted_wrt (<) (intersection r)" "sorted_wrt (<) (aOnly r)"
    "sorted_wrt (<) (bOnly r)"
    unfolding i a b by (simp_all add: strict_sorted_sort)
  have canon: "xs = sorted_list_of_set (set xs)" if "sorted_wrt (<) xs" for xs :: "jsstring list"
    using that by (simp add: strict_sorted_iff sorted_list_of_set.idem_if_sorted_distinct)
  have ca: "intersection r = sorted_list_of_set (A \<inter> B)"
    "aOnly r = sorted_list_of_set (A - B)" "bOnly r = sorted_list_of_set (B - A)"
    using canon [OF so(1)] canon [OF so(2)] canon [OF so(3)] by (simp_all add: si sa sb)
  have "length (intersection r) + length (aOnly r) = totalA (stats r)
       \<and> length (intersection r) + length (bOnly r) = totalB (stats r)
       \<and> totalA (stats r) = card A \<and> totalB (stats r) = card B
       \<and> inBoth (stats r) = length (intersection r)
       \<and> inAOnly (stats r) = length (aOnly r)
       \<and> inBOnly (stats r) = length (bOnly r)"
    using la lb by (simp add: st)
  moreover have "set (intersection r) \<inter> set (aOnly r) = {}
       \<and> set (intersection r) \<inter> set (bOnly r) = {}
       \<and> set (aOnly r) \<inter> set (bOnly r) = {}
       \<and> set (intersection r) \<union> set (aOnly r) \<union> set (bOnly r) = A \<union> B"
    unfolding si sa sb by blast
  ultimately show ?thesis
    using si sa sb so ca by blast
qed

theorem comparator_partition_witness:
  "length (intersection (handleCompare (join [0x0A] [lit ''x'', lit ''y'', lit ''z''])
                                        (join [0x0A] [lit ''y'', lit ''z'', lit ''w''])))
   + length (aOnly (handleCompare (join [0x0A] [lit ''x'', lit ''y'', lit ''z''])
                                  (join [0x0A] [lit ''y'', lit ''z'', lit ''w''])))
   = totalA (stats (handleCompare (join [0x0A] [lit ''x'', lit ''y'', lit ''z''])
                                  (join [0x0A] [lit ''y'', lit ''z'', lit ''w''])))
   \<and> totalA (stats (handleCompare (join [0x0A] [lit ''x'', lit ''y'', lit ''z''])
                                  (join [0x0A] [lit ''y'', lit ''z'', lit ''w'']))) = 3
   \<and> intersection (handleCompare (join [0x0A] [lit ''x'', lit ''y'', lit ''z''])
                                 (join [0x0A] [lit ''y'', lit ''z'', lit ''w'']))
     = [lit ''y'', lit ''z'']"
proof -
  let ?r = "handleCompare (join [0x0A] [lit ''x'', lit ''y'', lit ''z''])
                          (join [0x0A] [lit ''y'', lit ''z'', lit ''w''])"
  have a: "length (intersection ?r) + length (aOnly ?r) = totalA (stats ?r)"
    using comparator_partition [of "join [0x0A] [lit ''x'', lit ''y'', lit ''z'']"
                                   "join [0x0A] [lit ''y'', lit ''z'', lit ''w'']"]
    by blast
  have b: "totalA (stats ?r) = 3" "intersection ?r = [lit ''y'', lit ''z'']"
    unfolding handleCompare_example by simp_all
  show ?thesis using a b by blast
qed

text \<open>
  Claim C10. The comparator is symmetric in its arguments: swapping A and B leaves
  \<open>intersection\<close> and \<open>inBoth\<close> unchanged, exchanges \<open>aOnly\<close> with \<open>bOnly\<close>,
  \<open>inAOnly\<close> with \<open>inBOnly\<close> and \<open>totalA\<close> with \<open>totalB\<close>, and so leaves the
  similarity score unchanged.
\<close>

theorem comparator_symmetric:
  "intersection (handleCompare a b) = intersection (handleCompare b a)
   \<and> aOnly (handleCompare a b) = bOnly (handleCompare b a)
   \<and> bOnly (handleCompare a b) = aOnly (handleCompare b a)
   \<and> inBoth (stats (handleCompare a b)) = inBoth (stats (handleCompare b a))
   \<and> inAOnly (stats (handleCompare a b)) = inBOnly (stats (handleCompare b a))
   \<and> inBOnly (stats (handleCompare a b)) = inAOnly (stats (handleCompare b a))
   \<and> totalA (stats (handleCompare a b)) = totalB (stats (handleCompare b a))
   \<and> totalB (stats (handleCompare a b)) = totalA (stats (handleCompare b a))
   \<and> similarity rnd (stats (handleCompare a b)) = similarity rnd (stats (handleCompare b a))"
proof -
  have ab: "aOnly (handleCompare a b) = bOnly (handleCompare b a)" for a b
    by (simp add: handleCompare_aOnly handleCompare_bOnly)
  note i = intersection_commute [of a b]
  have dv: "similarity_divisor (stats (handleCompare a b))
            = similarity_divisor (stats (handleCompare b a))"
    by (simp add: handleCompare_stats [of a b] handleCompare_stats [of b a] i
        similarity_divisor_def Let_def add.commute)
  have ib: "inBoth (stats (handleCompare a b)) = inBoth (stats (handleCompare b a))"
    by (simp add: handleCompare_stats [of a b] handleCompare_stats [of b a] i)
  have sim: "similarity rnd (stats (handleCompare a b))
             = similarity rnd (stats (handleCompare b a))"
    unfolding similarity_def dv ib ..
  show ?thesis
    using sim
    by (simp add: handleCompare_stats [of a b] handleCompare_stats [of b a] ab i)
qed

theorem comparator_symmetric_witness:
  "aOnly (handleCompare (join [0x0A] [lit ''y'', lit ''z'', lit ''w''])
                        (join [0x0A] [lit ''x'', lit ''y'', lit ''z''])) = [lit ''w'']
   \<and> bOnly (handleCompare (join [0x0A] [lit ''y'', lit ''z'', lit ''w''])
                          (join [0x0A] [lit ''x'', lit ''y'', lit ''z''])) = [lit ''x'']
   \<and> intersection (handleCompare (join [0x0A] [lit ''y'', lit ''z'', lit ''w''])
                                 (join [0x0A] [lit ''x'', lit ''y'', lit ''z'']))
     = [lit ''y'', lit ''z'']"
  using comparator_symmetric [of "join [0x0A] [lit ''x'', lit ''y'', lit ''z'']"
                                 "join [0x0A] [lit ''y'', lit ''z'', lit ''w'']",
                              unfolded handleCompare_example]
  by (simp del: join.simps)

text \<open>
  Claim C5. The similarity score is the Jaccard index of the two sets of distinct
  lines, as a percentage: the number of common lines over the number of lines of the
  union, which is \<open>totalA + totalB - inBoth\<close>, each arithmetic result rounded to a
  double. For any statistics the score is a finite number, never \<open>NaN\<close> and never an
  infinity, because the divisor the program uses is never zero. When both lists are
  empty the denominator is zero and the quotient by it would be \<open>NaN\<close>; the program
  divides by 1 instead, and the score is 0. A list with at least one line compared
  with itself scores 100. The last two values hold for every rounding that leaves 0,
  1 and 100 as they are, as the rounding to a double does; with exact arithmetic the
  score is the Jaccard index times 100.
\<close>

theorem similarity_guarded:
  fixes a b :: jsstring and st :: comparison_stats and rnd :: "real \<Rightarrow> real"
  defines "A \<equiv> set (normalize_lines a)" and "B \<equiv> set (normalize_lines b)"
  defines "r \<equiv> stats (handleCompare a b)"
  shows "similarity_divisor st \<noteq> 0
   \<and> similarity rnd st \<noteq> NotANumber
   \<and> similarity rnd st \<noteq> PlusInfinity
   \<and> similarity rnd st \<noteq> MinusInfinity
   \<and> similarity rnd st
       = Finite (rnd (rnd (real (inBoth st) / real_of_int (similarity_divisor st)) * 100))
   \<and> int (totalA r) + int (totalB r) - int (inBoth r) = int (card (A \<union> B))
   \<and> inBoth r = card (A \<inter> B)
   \<and> (A \<union> B \<noteq> {} \<longrightarrow>
        similarity rnd r = Finite (rnd (rnd (real (card (A \<inter> B)) / real (card (A \<union> B))) * 100))
        \<and> similarity id r = Finite (real (card (A \<inter> B)) / real (card (A \<union> B)) * 100))
   \<and> (A \<union> B = {} \<longrightarrow>
        int (totalA r) + int (totalB r) - int (inBoth r) = 0
        \<and> js_times rnd
              (js_divide rnd (int (inBoth r)) (int (totalA r) + int (totalB r) - int (inBoth r)))
              100 = NotANumber
        \<and> similarity_divisor r = 1
        \<and> similarity rnd r = Finite (rnd (rnd 0 * 100)))
   \<and> (rnd 0 = 0 \<and> A \<union> B = {} \<longrightarrow> similarity rnd r = Finite 0)
   \<and> (rnd 1 = 1 \<and> rnd 100 = 100 \<and> A \<noteq> {} \<longrightarrow>
        similarity rnd (stats (handleCompare a a)) = Finite 100)"
proof -
  have d: "similarity_divisor st \<noteq> 0"
    by (simp add: similarity_divisor_def Let_def)
  note f = similarity_finite [of rnd st]
  have n: "similarity rnd st \<noteq> NotANumber" "similarity rnd st \<noteq> PlusInfinity"
    "similarity rnd st \<noteq> MinusInfinity"
    unfolding f by simp_all
  have c1: "int (totalA r) + int (totalB r) - int (inBoth r) = int (card (A \<union> B))"
    unfolding A_def B_def r_def by (rule similarity_divisor_card)
  have c2: "inBoth r = card (A \<inter> B)"
    unfolding A_def B_def r_def by (rule inBoth_card)
  have s: "rnd 1 = 1 \<and> rnd 100 = 100 \<and> A \<noteq> {}
           \<Longrightarrow> similarity rnd (stats (handleCompare a a)) = Finite 100"
    unfolding similarity_handleCompare A_def by simp
  have z0: "A \<union> B = {} \<Longrightarrow> similarity rnd r = Finite (rnd (rnd 0 * 100))"
    unfolding similarity_handleCompare A_def B_def r_def by simp
  have z: "rnd 0 = 0 \<and> A \<union> B = {} \<Longrightarrow> similarity rnd r = Finite 0"
    using z0 by simp
  have e: "int (totalA r) + int (totalB r) - int (inBoth r) = 0
        \<and> js_times rnd
              (js_divide rnd (int (inBoth r)) (int (totalA r) + int (totalB r) - int (inBoth r)))
              100 = NotANumber
        \<and> similarity_divisor r = 1" if "A \<union> B = {}"
  proof -
    from that have u: "int (totalA r) + int (totalB r) - int (inBoth r) = 0"
      unfolding c1 by simp
    from that have i0: "inBoth r = 0" unfolding c2 by simp
    have dv: "similarity_divisor r = 1"
      using u by (simp add: similarity_divisor_def Let_def)
    show ?thesis
      unfolding u using i0 dv by (simp add: js_divide_def js_times_def)
  qed
  have j: "A \<union> B \<noteq> {} \<Longrightarrow>
        similarity rnd r
          = Finite (rnd (rnd (real (card (A \<inter> B)) / real (card (A \<union> B))) * 100))" for rnd
    unfolding similarity_handleCompare A_def B_def r_def by simp
  have j2: "A \<union> B \<noteq> {} \<Longrightarrow>
        similarity id r = Finite (real (card (A \<inter> B)) / real (card (A \<union> B)) * 100)"
    using j [of id] by simp
  show ?thesis
    using d n f c1 c2 s z0 z e j [of rnd] j2 by blast
qed

theorem similarity_guarded_witness:
  "similarity id (stats (handleCompare [] [])) = Finite 0
   \<and> js_times id
        (js_divide id (int (inBoth (stats (handleCompare [] []))))
           (int (totalA (stats (handleCompare [] []))) + int (totalB (stats (handleCompare [] [])))
            - int (inBoth (stats (handleCompare [] []))))) 100 = NotANumber
   \<and> similarity id (stats (handleCompare (lit ''x'') (lit ''x''))) = Finite 100
   \<and> similarity id (stats (handleCompare (join [0x0A] [lit ''x'', lit ''y'', lit ''z''])
                                           (join [0x0A] [lit ''y'', lit ''z'', lit ''w'']))) = Finite 50"
proof -
  have n: "normalize_lines [] = []" "normalize_lines (lit ''x'') = [lit ''x'']"
    by code_simp+
  have e: "set (normalize_lines []) \<union> set (normalize_lines []) = {}"
    "set (normalize_lines (lit ''x'')) \<noteq> {}"
    unfolding n by simp_all
  have r: "id (0::real) = 0" "id (1::real) = 1" "id (100::real) = 100"
    by simp_all
  have x: "similarity id (stats (handleCompare (join [0x0A] [lit ''x'', lit ''y'', lit ''z''])
                                        (join [0x0A] [lit ''y'', lit ''z'', lit ''w'']))) = Finite 50"
    unfolding handleCompare_example
    by (simp add: similarity_def similarity_divisor_def js_divide_def js_times_def)
  show ?thesis
    using similarity_guarded [where a = "[]" and b = "[]" and rnd = id]
      similarity_guarded [where a = "lit ''x''" and rnd = id] e r x
    by blast
qed

section \<open>Properties of the batcher\<close>

lemma slice_window:
  assumes "0 \<le> i" "0 \<le> s"
  shows "slice xs i (i + s) = take (nat s) (drop (nat i) xs)"
proof (cases "i + s \<le> int (length xs)")
  case True
  with assms show ?thesis
    by (simp add: slice_def Let_def min_def)
next
  case False
  with assms have "length (drop (nat i) xs) \<le> nat s"
    by simp
  with assms False show ?thesis
    by (auto simp: slice_def Let_def min_def)
qed

lemma div_shift_one:
  fixes s d :: int
  assumes "1 \<le> s"
  shows "(d + s - 1) div s = (d - 1) div s + 1"
proof -
  have "(d + s - 1) div s = ((d - 1) + s) div s" by (simp add: algebra_simps)
  also have "\<dots> = (d - 1) div s + 1" using assms by (subst div_add_self2) auto
  finally show ?thesis .
qed

lemma batch_count_step:
  fixes s d :: int
  assumes "1 \<le> s" "1 \<le> d"
  shows "1 + (max 0 (d - s) + s - 1) div s = (max 0 d + s - 1) div s"
proof (cases "s \<le> d")
  case True
  with assms have "(max 0 d + s - 1) div s = (d + s - 1) div s" by (simp add: max_def)
  also have "\<dots> = (d - 1) div s + 1" using assms by (simp add: div_shift_one)
  finally show ?thesis using True by (simp add: max_def)
next
  case False
  with assms have a: "(max 0 (d - s) + s - 1) div s = 0"
    by (simp add: max_def div_pos_pos_trivial)
  from assms False have "(max 0 d + s - 1) div s = (d + s - 1) div s" by (simp add: max_def)
  also have "\<dots> = (d - 1) div s + 1" using assms by (simp add: div_shift_one)
  also have "(d - 1) div s = 0" using assms False by (simp add: div_pos_pos_trivial)
  finally show ?thesis using a by simp
qed

lemma batch_loop_result:
  assumes "1 \<le> s" "0 \<le> i"
  shows "\<exists>new. batch_loop lines s i out = Some (out @ new)
      \<and> concat (map items new) = drop (nat i) lines
      \<and> map batch_id new = [length out ..< length out + length new]
      \<and> (\<forall>b \<in> set new. items b \<noteq> [] \<and> int (length (items b)) \<le> s)
      \<and> (\<forall>k. Suc k < length new \<longrightarrow> int (length (items (new ! k))) = s)
      \<and> int (length new) = (max 0 (int (length lines) - i) + s - 1) div s"
  using assms(2)
proof (induction "nat (int (length lines) - i)" arbitrary: i out rule: less_induct)
  case less
  show ?case
  proof (cases "i < int (length lines)")
    case False
    then have "batch_loop lines s i out = Some out"
      by (subst batch_loop.simps) simp
    moreover from False \<open>0 \<le> i\<close> have "drop (nat i) lines = []" by simp
    moreover from False assms(1) have "(max 0 (int (length lines) - i) + s - 1) div s = 0"
      by (simp add: max_def div_pos_pos_trivial)
    ultimately show ?thesis by simp
  next
    case True
    define b where "b = \<lparr> batch_id = length out, items = slice lines i (i + s) \<rparr>"
    have ib: "items b = take (nat s) (drop (nat i) lines)"
      using slice_window [of i s lines] less.prems assms(1) by (simp add: b_def)
    have step: "batch_loop lines s i out = batch_loop lines s (i + s) (out @ [b])"
      using True by (subst batch_loop.simps) (simp add: b_def)
    have "nat (int (length lines) - (i + s)) < nat (int (length lines) - i)"
      using True assms(1) by simp
    moreover have "0 \<le> i + s" using less.prems assms(1) by simp
    ultimately obtain new where
      r: "batch_loop lines s (i + s) (out @ [b]) = Some ((out @ [b]) @ new)"
      and c: "concat (map items new) = drop (nat (i + s)) lines"
      and d: "map batch_id new = [length (out @ [b]) ..< length (out @ [b]) + length new]"
      and ne: "\<forall>b \<in> set new. items b \<noteq> [] \<and> int (length (items b)) \<le> s"
      and full: "\<forall>k. Suc k < length new \<longrightarrow> int (length (items (new ! k))) = s"
      and n: "int (length new) = (max 0 (int (length lines) - (i + s)) + s - 1) div s"
      using less.hyps [of "i + s" "out @ [b]"] by blast
    have nat_sum: "nat (i + s) = nat s + nat i"
      using less.prems assms(1) by simp
    have 1: "batch_loop lines s i out = Some (out @ (b # new))"
      using step r by simp
    have 2: "concat (map items (b # new)) = drop (nat i) lines"
      using c ib by (simp add: nat_sum flip: drop_drop)
    have "[length out ..< length out + length (b # new)]
            = length out # [Suc (length out) ..< Suc (length out) + length new]"
      by (subst upt_rec) simp
    then have 3: "map batch_id (b # new) = [length out ..< length out + length (b # new)]"
      using d by (simp add: b_def)
    have lb: "int (length (items b)) = min s (int (length lines) - i)"
      using True less.prems assms(1) by (simp add: ib min_def) linarith
    have 4: "\<forall>x \<in> set (b # new). items x \<noteq> [] \<and> int (length (items x)) \<le> s"
    proof -
      have "items b \<noteq> []" using lb True assms(1) by auto
      moreover have "int (length (items b)) \<le> s" using lb by simp
      ultimately show ?thesis using ne by simp
    qed
    have 5: "\<forall>k. Suc k < length (b # new) \<longrightarrow> int (length (items ((b # new) ! k))) = s"
    proof (intro allI impI)
      fix k assume k: "Suc k < length (b # new)"
      show "int (length (items ((b # new) ! k))) = s"
      proof (cases k)
        case 0
        from k have "0 < int (length new)" by (cases new) simp_all
        then have "i + s < int (length lines)"
          unfolding n using assms(1)
          by (cases "i + s < int (length lines)") (simp_all add: max_def div_pos_pos_trivial)
        then show ?thesis using 0 lb by simp
      next
        case (Suc j)
        then show ?thesis using k full by simp
      qed
    qed
    have 6: "int (length (b # new)) = (max 0 (int (length lines) - i) + s - 1) div s"
      using batch_count_step [of s "int (length lines) - i"] True assms(1) n
      by (simp add: algebra_simps)
    show ?thesis using 1 2 3 4 5 6 by blast
  qed
qed


lemma ceiling_target:
  fixes len t :: int
  assumes "1 \<le> len" "1 \<le> t"
  shows "1 \<le> \<lceil>real_of_int len / real_of_int t\<rceil>"
    and "len \<le> \<lceil>real_of_int len / real_of_int t\<rceil> * t"
proof -
  let ?s = "\<lceil>real_of_int len / real_of_int t\<rceil>"
  have "0 < real_of_int len / real_of_int t" using assms by simp
  then have "0 < ?s" by (simp add: ceiling_less_iff del: ceiling_divide_eq_div)
  then show "1 \<le> ?s" by simp
  have "real_of_int len = (real_of_int len / real_of_int t) * real_of_int t"
    using assms by simp
  also have "\<dots> \<le> real_of_int ?s * real_of_int t"
    by (rule mult_right_mono [OF le_of_int_ceiling]) (use assms in simp)
  finally show "len \<le> ?s * t" by (metis of_int_le_iff of_int_mult)
qed

lemma count_bound:
  fixes len s t :: int
  assumes "1 \<le> s" "len \<le> s * t" "0 \<le> len"
  shows "(max 0 len + s - 1) div s \<le> t"
proof -
  have "max 0 len + s - 1 \<le> (s - 1) + t * s" using assms by (simp add: algebra_simps)
  then have "(max 0 len + s - 1) div s \<le> ((s - 1) + t * s) div s"
    using assms(1) by (intro zdiv_mono1) simp_all
  also have "\<dots> = t" using assms(1) by (simp add: div_pos_pos_trivial)
  finally show ?thesis .
qed

lemma processedData_groups:
  fixes inputText :: jsstring and mode :: SplitMode and n :: int
  defines "lines \<equiv> normalize_lines inputText"
  defines "s \<equiv> (if mode = size_mode then max 1 n
                else \<lceil>real (length lines) / real_of_int (max 1 n)\<rceil>)"
  assumes "lines \<noteq> []"
  shows "1 \<le> s
     \<and> (\<exists>new. processedData inputText mode n = Some \<lparr> sets = new, totalItems = length lines \<rparr>
          \<and> concat (map items new) = lines
          \<and> map batch_id new = [0 ..< length new]
          \<and> (\<forall>b \<in> set new. items b \<noteq> [] \<and> int (length (items b)) \<le> s)
          \<and> (\<forall>k. Suc k < length new \<longrightarrow> int (length (items (new ! k))) = s)
          \<and> int (length new) = (int (length lines) + s - 1) div s)"
proof -
  have len: "1 \<le> int (length lines)" using assms(3) by (cases lines) simp_all
  have s1: "1 \<le> s"
    using ceiling_target(1) [of "int (length lines)" "max 1 n"] len by (simp add: s_def)
  obtain new where r: "batch_loop lines s 0 [] = Some ([] @ new)"
      and c: "concat (map items new) = drop (nat 0) lines"
      and d: "map batch_id new
                = [length ([]::BatchSet list) ..< length ([]::BatchSet list) + length new]"
      and ne: "\<forall>b \<in> set new. items b \<noteq> [] \<and> int (length (items b)) \<le> s"
      and full: "\<forall>k. Suc k < length new \<longrightarrow> int (length (items (new ! k))) = s"
      and cnt: "int (length new) = (max 0 (int (length lines) - 0) + s - 1) div s"
    using batch_loop_result [OF s1, of 0 lines "[]"] by auto
  have p: "processedData inputText mode n = Some \<lparr> sets = new, totalItems = length lines \<rparr>"
    using assms(3) r unfolding processedData_def Let_def s_def lines_def by auto
  show ?thesis
    using s1 p c d ne full cnt by auto
qed

lemma processedData_concat:
  "processedData inputText mode n = Some p \<Longrightarrow>
   concat (map items (sets p)) = normalize_lines inputText"
proof (cases "normalize_lines inputText = []")
  case True
  assume "processedData inputText mode n = Some p"
  with True show ?thesis by (auto simp: processedData_def)
next
  case False
  assume "processedData inputText mode n = Some p"
  with processedData_groups [OF False, of mode n] show ?thesis by auto
qed

text \<open>
  Claim C1, as amended. For every raw text and every integer \<open>n\<close> the partitioner
  returns (the loop ends, because the group size is at least 1), and the groups, in
  the order of their ids \<open>0, 1, 2, \<dots>\<close>, concatenate to the normalized line list. No
  group is empty, so an empty line list gives no group. In the mode by size every
  group but the last has exactly \<open>max 1 n\<close> items and the last has at most that many.
  In the mode by count there are at most \<open>max 1 n\<close> groups.
\<close>

theorem partition_complete:
  fixes inputText :: jsstring and mode :: SplitMode and n :: int
  shows "\<exists>p. processedData inputText mode n = Some p
     \<and> totalItems p = length (normalize_lines inputText)
     \<and> concat (map items (sets p)) = normalize_lines inputText
     \<and> map batch_id (sets p) = [0 ..< length (sets p)]
     \<and> (\<forall>b \<in> set (sets p). items b \<noteq> [])
     \<and> (normalize_lines inputText = [] \<longrightarrow> sets p = [])
     \<and> (mode = size_mode \<longrightarrow>
          (\<forall>k. Suc k < length (sets p) \<longrightarrow> int (length (items (sets p ! k))) = max 1 n)
          \<and> (\<forall>b \<in> set (sets p). int (length (items b)) \<le> max 1 n))
     \<and> (mode = count_mode \<longrightarrow> int (length (sets p)) \<le> max 1 n)"
proof (cases "normalize_lines inputText = []")
  case True
  then show ?thesis by (auto simp: processedData_def)
next
  case False
  let ?lines = "normalize_lines inputText"
  define s where "s = (if mode = size_mode then max 1 n
               else \<lceil>real (length ?lines) / real_of_int (max 1 n)\<rceil>)"
  have len: "1 \<le> int (length ?lines)" using False by (cases ?lines) simp_all
  from processedData_groups [OF False, of mode n, folded s_def]
  obtain new where s1: "1 \<le> s"
      and p: "processedData inputText mode n = Some \<lparr> sets = new, totalItems = length ?lines \<rparr>"
      and c: "concat (map items new) = ?lines"
      and d: "map batch_id new = [0 ..< length new]"
      and ne: "\<forall>b \<in> set new. items b \<noteq> [] \<and> int (length (items b)) \<le> s"
      and full: "\<forall>k. Suc k < length new \<longrightarrow> int (length (items (new ! k))) = s"
      and cnt: "int (length new) = (int (length ?lines) + s - 1) div s"
    by blast
  have cm: "mode = count_mode \<Longrightarrow> int (length new) \<le> max 1 n"
  proof -
    assume "mode = count_mode"
    then have "s = \<lceil>real_of_int (int (length ?lines)) / real_of_int (max 1 n)\<rceil>"
      by (simp add: s_def)
    then have "int (length ?lines) \<le> s * max 1 n"
      using ceiling_target(2) [of "int (length ?lines)" "max 1 n"] len by simp
    then show ?thesis
      unfolding cnt using count_bound [of s "int (length ?lines)" "max 1 n"] s1 by simp
  qed
  have sm: "mode = size_mode \<Longrightarrow> s = max 1 n" by (simp add: s_def)
  show ?thesis
    unfolding p using c d ne full cm sm False by auto
qed

lemma processedData_25_by_size:
  "map (\<lambda>b. length (items b))
       (sets (the (processedData (join [0x0A] (replicate 25 (lit ''t''))) size_mode 10)))
   = [10, 10, 5]"
  by code_simp

lemma processedData_25_by_count:
  "map (\<lambda>b. length (items b))
       (sets (the (processedData (join [0x0A] (replicate 25 (lit ''t''))) count_mode 4)))
   = [7, 7, 7, 4]"
  by code_simp

theorem partition_complete_witness:
  "concat (map items (sets (the (processedData (join [0x0A] (replicate 25 (lit ''t''))) count_mode 4))))
     = normalize_lines (join [0x0A] (replicate 25 (lit ''t'')))
   \<and> int (length (sets (the (processedData (join [0x0A] (replicate 25 (lit ''t''))) count_mode 4))))
       \<le> max 1 4
   \<and> map (\<lambda>b. length (items b))
       (sets (the (processedData (join [0x0A] (replicate 25 (lit ''t''))) count_mode 4)))
     = [7, 7, 7, 4]
   \<and> map (\<lambda>b. length (items b))
       (sets (the (processedData (join [0x0A] (replicate 25 (lit ''t''))) size_mode 10)))
     = [10, 10, 5]"
  using partition_complete [of "join [0x0A] (replicate 25 (lit ''t''))" count_mode 4]
    processedData_25_by_size processedData_25_by_count
  by auto

text \<open>
  The claim as first stated bounds the number of groups by \<open>n\<close> itself, also for
  \<open>n \<le> 0\<close>. With one line and \<open>n = 0\<close> the count is clamped to 1, and there is one
  group.
\<close>

theorem partition_count_counterexample:
  "processedData (lit ''a'') count_mode 0
     = Some \<lparr> sets = [\<lparr> batch_id = 0, items = [lit ''a''] \<rparr>], totalItems = 1 \<rparr>
   \<and> \<not> int (length (sets (the (processedData (lit ''a'') count_mode 0)))) \<le> 0"
  by code_simp

lemma getFormattedCount_loop_sum:
  assumes "i \<le> k" "k \<le> length ss"
  shows "getFormattedCount_loop k ss i acc
         = Inr (acc + length (concat (map items (take (k - i) (drop i ss)))))"
  using assms
proof (induction "k - i" arbitrary: i acc)
  case 0
  then show ?case by (subst getFormattedCount_loop.simps) simp
next
  case (Suc d)
  then have lt: "i < k" "i < length ss" by simp_all
  have "drop i ss = ss ! i # drop (Suc i) ss"
    using lt(2) by (simp add: Cons_nth_drop_Suc)
  moreover have "k - i = Suc (k - Suc i)"
    using lt(1) by simp
  ultimately have t: "take (k - i) (drop i ss) = ss ! i # take (k - Suc i) (drop (Suc i) ss)"
    by simp
  have "getFormattedCount_loop k ss i acc
        = getFormattedCount_loop k ss (i + 1) (acc + length (items (ss ! i)))"
    using lt by (subst getFormattedCount_loop.simps) simp
  also have "\<dots> = Inr (acc + length (items (ss ! i))
                      + length (concat (map items (take (k - (i + 1)) (drop (i + 1) ss)))))"
    using Suc.hyps(1) [of "i + 1"] Suc.hyps(2) Suc.prems lt by simp
  finally show ?case by (simp add: t)
qed

lemma getFormattedCount_sum:
  "k \<le> length ss \<Longrightarrow>
   getFormattedCount k ss = Inr (length (concat (map items (take k ss))))"
  by (simp add: getFormattedCount_def getFormattedCount_loop_sum)

lemma length_concat_take:
  "k \<le> length xss \<Longrightarrow> length (concat (take k xss)) = (\<Sum>i<k. length (xss ! i))"
proof (induction k)
  case 0
  then show ?case by simp
next
  case (Suc k)
  then show ?case by (simp add: take_Suc_conv_app_nth)
qed

lemma nth_concat_offset:
  assumes "k < length xss" "j < length (xss ! k)"
  shows "length (concat (take k xss)) + j < length (concat xss)"
    and "concat xss ! (length (concat (take k xss)) + j) = xss ! k ! j"
proof -
  have "xss = take k xss @ xss ! k # drop (Suc k) xss"
    using assms(1) by (rule id_take_nth_drop)
  then have c: "concat xss = concat (take k xss) @ xss ! k @ concat (drop (Suc k) xss)"
    by (metis concat.simps(2) concat_append)
  show "length (concat (take k xss)) + j < length (concat xss)"
    using assms(2) unfolding length_concat [of xss, folded c[symmetric]] 
    by (simp add: c)
  show "concat xss ! (length (concat (take k xss)) + j) = xss ! k ! j"
    using assms(2) by (subst c) (simp add: nth_append)
qed

lemma copySet_items_nth:
  "j < length its \<Longrightarrow>
   copySet_items useIndexing prefix its offset ! j
     = formatItem useIndexing prefix offset j (its ! j)"
  by (simp add: copySet_items_def nth_enumerate_eq)

lemma index_value_snoc: "index_value (s @ [c]) = 10 * index_value s + uint (c - 0x30)"
  by (simp add: index_value_def)

lemma digit_value: "d < 10 \<Longrightarrow> uint ((48 + of_nat d :: 16 word) - 0x30) = int d"
proof -
  assume "d < 10"
  then have "unat (of_nat d :: 16 word) = d" by (simp add: unat_of_nat)
  then have "uint (of_nat d :: 16 word) = int d" by (metis uint_nat)
  then show ?thesis by simp
qed

lemma index_value_decimal: "index_value (decimal n) = int n"
proof (induction n rule: decimal.induct)
  case (1 n)
  show ?case
  proof (cases "n < 10")
    case True
    then show ?thesis
      using digit_value [of n] by (subst decimal.simps) (simp add: index_value_def)
  next
    case False
    then have "index_value (decimal n) = 10 * index_value (decimal (n div 10)) + int (n mod 10)"
      using digit_value [of "n mod 10"]
      by (subst decimal.simps) (simp add: index_value_snoc)
    also have "\<dots> = int n" using 1 False by (simp add: of_nat_div of_nat_mod)
    finally show ?thesis .
  qed
qed


lemma isDigit_decimal: "list_all isDigit (decimal n)"
proof (induction n rule: decimal.induct)
  case (1 n)
  have d: "isDigit (48 + of_nat m)" if "m < 10" for m :: nat
  proof -
    from that have "unat (of_nat m :: 16 word) = m" by (simp add: unat_of_nat)
    then have "(of_nat m :: 16 word) \<le> 9" using that by (simp add: word_le_nat_alt)
    then have "(48 :: 16 word) + of_nat m \<le> 48 + 9" and "(48 :: 16 word) \<le> 48 + of_nat m"
      by (simp_all add: word_le_nat_alt unat_word_ariths \<open>unat (of_nat m :: 16 word) = m\<close>)
    then show ?thesis by (simp add: isDigit_def)
  qed
  show ?case
  proof (cases "n < 10")
    case True
    then show ?thesis by (subst decimal.simps) (simp add: d)
  next
    case False
    then show ?thesis using 1 by (subst decimal.simps) (simp add: d)
  qed
qed

lemma Number_toString_decimal:
  "0 \<le> n \<Longrightarrow> index_value (Number_toString n) = n \<and> list_all isDigit (Number_toString n)"
  by (simp add: Number_toString_def index_value_decimal isDigit_decimal)

lemma copy_format_aux:
  assumes c: "concat (map items ss) = lines" and k: "k < length ss"
    and j: "j < length (items (ss ! k))"
  shows "\<exists>offset. getFormattedCount k ss = Inr offset
     \<and> offset = (\<Sum>i<k. length (items (ss ! i)))
     \<and> offset + j < length lines
     \<and> lines ! (offset + j) = items (ss ! k) ! j"
proof -
  let ?off = "length (concat (map items (take k ss)))"
  have g: "getFormattedCount k ss = Inr ?off"
    using k by (simp add: getFormattedCount_sum)
  have "?off = length (concat (take k (map items ss)))" by (simp add: take_map)
  also have "\<dots> = (\<Sum>i<k. length (map items ss ! i))"
    using k by (intro length_concat_take) simp
  also have "\<dots> = (\<Sum>i<k. length (items (ss ! i)))"
    using k by (intro sum.cong) simp_all
  finally have s: "?off = (\<Sum>i<k. length (items (ss ! i)))" .
  have o: "?off = length (concat (take k (map items ss)))" by (simp add: take_map)
  have "k < length (map items ss)" "j < length (map items ss ! k)" using k j by simp_all
  from nth_concat_offset [OF this] have
    "?off + j < length lines" "lines ! (?off + j) = items (ss ! k) ! j"
    using k unfolding o c by simp_all
  with g s show ?thesis by simp
qed

lemma js_rem_nonneg: "0 \<le> a \<Longrightarrow> 0 < b \<Longrightarrow> js_rem a b = a mod b"
  by (cases "a = 0") (simp_all add: js_rem_def)

lemma getAlphaLabel_loop_acc:
  "getAlphaLabel_loop i acc = getAlphaLabel_loop i [] @ acc"
proof (induction "nat i" arbitrary: i acc rule: less_induct)
  case less
  show ?case
  proof (cases "i > 0")
    case False
    then show ?thesis by (simp add: getAlphaLabel_loop.simps)
  next
    case True
    let ?c = "fromCharCode (65 + js_rem (i - 1) 26)" and ?q = "(i - 1) div 26"
    have q: "nat ?q < nat i" using True by simp
    have "getAlphaLabel_loop i acc = getAlphaLabel_loop ?q (?c # acc)"
      using True by (subst getAlphaLabel_loop.simps) simp
    also have "\<dots> = getAlphaLabel_loop ?q [] @ ?c # acc"
      by (rule less.hyps [OF q])
    also have "\<dots> = (getAlphaLabel_loop ?q [] @ [?c]) @ acc"
      by simp
    also have "getAlphaLabel_loop ?q [] @ [?c] = getAlphaLabel_loop ?q [?c]"
      by (rule less.hyps [OF q, symmetric])
    also have "\<dots> = getAlphaLabel_loop i []"
      using True by (subst (2) getAlphaLabel_loop.simps) simp
    finally show ?thesis .
  qed
qed

lemma getAlphaLabel_loop_step:
  assumes "0 < i"
  shows "getAlphaLabel_loop i [] =
         getAlphaLabel_loop ((i - 1) div 26) [] @ [fromCharCode (65 + (i - 1) mod 26)]"
proof -
  have "getAlphaLabel_loop i [] =
        getAlphaLabel_loop ((i - 1) div 26) [fromCharCode (65 + js_rem (i - 1) 26)]"
    using assms by (subst getAlphaLabel_loop.simps) simp
  also have "\<dots> = getAlphaLabel_loop ((i - 1) div 26) [] @ [fromCharCode (65 + js_rem (i - 1) 26)]"
    by (rule getAlphaLabel_loop_acc)
  finally show ?thesis using assms by (simp add: js_rem_nonneg)
qed

lemma letter_code:
  assumes "0 \<le> r" "r < 26"
  shows "uint (fromCharCode (65 + r)) = 65 + r" and "isUpperLetter (fromCharCode (65 + r))"
proof -
  show u: "uint (fromCharCode (65 + r)) = 65 + r"
    using assms unfolding fromCharCode_def uint_word_of_int by simp
  have "uint (0x41 :: 16 word) \<le> uint (fromCharCode (65 + r))"
    and "uint (fromCharCode (65 + r)) \<le> uint (0x5A :: 16 word)"
    using assms unfolding u by simp_all
  then show "isUpperLetter (fromCharCode (65 + r))"
    unfolding isUpperLetter_def word_le_def by simp
qed

lemma letters_value_snoc: "letters_value (s @ [c]) = 26 * letters_value s + (uint c - 64)"
  by (simp add: letters_value_def)

lemma getAlphaLabel_loop_value:
  "0 \<le> i \<Longrightarrow> letters_value (getAlphaLabel_loop i []) = i \<and> list_all isUpperLetter (getAlphaLabel_loop i [])"
proof (induction "nat i" arbitrary: i rule: less_induct)
  case less
  show ?case
  proof (cases "i = 0")
    case True
    then show ?thesis by (simp add: getAlphaLabel_loop.simps letters_value_def)
  next
    case False
    with less.prems have pos: "0 < i" by simp
    let ?q = "(i - 1) div 26" and ?r = "(i - 1) mod 26"
    have q: "0 \<le> ?q" "nat ?q < nat i" using pos by simp_all
    have r: "0 \<le> ?r" "?r < 26" by simp_all
    have ih: "letters_value (getAlphaLabel_loop ?q []) = ?q"
      "list_all isUpperLetter (getAlphaLabel_loop ?q [])"
      using less.hyps [OF q(2) q(1)] by simp_all
    have "letters_value (getAlphaLabel_loop i []) = 26 * ?q + (65 + ?r - 64)"
      unfolding getAlphaLabel_loop_step [OF pos] letters_value_snoc ih letter_code(1) [OF r] ..
    also have "\<dots> = i" by simp
    finally show ?thesis
      using ih(2) letter_code(2) [OF r] by (simp add: getAlphaLabel_loop_step [OF pos])
  qed
qed

lemma getAlphaLabel_values:
  "getAlphaLabel 0 = lit ''A''" "getAlphaLabel 25 = lit ''Z''" "getAlphaLabel 26 = lit ''AA''"
  "getAlphaLabel 27 = lit ''AB''" "getAlphaLabel 701 = lit ''ZZ''" "getAlphaLabel 702 = lit ''AAA''"
  by code_simp+

lemma processedData_five:
  "processedData (join [0x0A] [lit ''a'', lit ''b'', lit ''c'', lit ''d'', lit ''e'']) size_mode 2
   = Some \<lparr> sets = [\<lparr> batch_id = 0, items = [lit ''a'', lit ''b''] \<rparr>,
                    \<lparr> batch_id = 1, items = [lit ''c'', lit ''d''] \<rparr>,
                    \<lparr> batch_id = 2, items = [lit ''e''] \<rparr>],
            totalItems = 5 \<rparr>"
  by code_simp

lemma copySet_five:
  "copySet_items True (lit ''Day'') [lit ''c'', lit ''d''] 2 ! 1 = lit ''4. Day d''"
  "copySet True (lit ''Day'') [lit ''c'', lit ''d''] 2
     = lit ''3. Day c'' @ [0x0A] @ lit ''4. Day d''"
  "copySet False [] [lit ''c'', lit ''d''] 2 = lit ''c'' @ [0x0A] @ lit ''d''"
  by code_simp+

text \<open>
  Claim C8. The numeric scheme labels the group with id \<open>k\<close> by the decimal numeral of
  \<open>k + 1\<close>. The alphabetic scheme labels a group id \<open>g \<ge> 0\<close> by the bijective base-26
  numeral of \<open>g + 1\<close>: the label obeys the recurrence with \<open>(n - 1) mod 26\<close> and
  \<open>(n - 1) div 26\<close> for \<open>n = g + 1\<close>, it consists of the letters A to Z only, read as
  digits 1 to 26 it denotes \<open>g + 1\<close>, and so different ids get different labels. Ids
  0, 25, 26, 27, 701 and 702 give A, Z, AA, AB, ZZ and AAA.
\<close>

theorem labels_bijective_base26:
  fixes g :: int and b :: BatchSet
  assumes "0 \<le> g"
  shows "setLabel numeric b = lit ''Set '' @ Number_toString (int (batch_id b) + 1)
     \<and> index_value (Number_toString (int (batch_id b) + 1)) = int (batch_id b) + 1
     \<and> list_all isDigit (Number_toString (int (batch_id b) + 1))
     \<and> setLabel alpha b = lit ''Set '' @ getAlphaLabel (int (batch_id b))
     \<and> getAlphaLabel g = getAlphaLabel (g div 26 - 1) @ [fromCharCode (65 + g mod 26)]
     \<and> list_all isUpperLetter (getAlphaLabel g)
     \<and> letters_value (getAlphaLabel g) = g + 1
     \<and> (\<forall>h. 0 \<le> h \<and> getAlphaLabel h = getAlphaLabel g \<longrightarrow> h = g)
     \<and> getAlphaLabel 0 = lit ''A'' \<and> getAlphaLabel 25 = lit ''Z''
     \<and> getAlphaLabel 26 = lit ''AA'' \<and> getAlphaLabel 27 = lit ''AB''
     \<and> getAlphaLabel 701 = lit ''ZZ'' \<and> getAlphaLabel 702 = lit ''AAA''"
proof -
  have v: "letters_value (getAlphaLabel h) = h + 1" if "0 \<le> h" for h
    using getAlphaLabel_loop_value [of "h + 1"] that by (simp add: getAlphaLabel_def)
  have inj: "\<forall>h. 0 \<le> h \<and> getAlphaLabel h = getAlphaLabel g \<longrightarrow> h = g"
  proof (intro allI impI)
    fix h assume h: "0 \<le> h \<and> getAlphaLabel h = getAlphaLabel g"
    then have h0: "0 \<le> h" and he: "getAlphaLabel h = getAlphaLabel g" by blast+
    have "h + 1 = letters_value (getAlphaLabel h)" using v [OF h0] by simp
    also have "\<dots> = letters_value (getAlphaLabel g)" by (simp only: he)
    also have "\<dots> = g + 1" by (rule v [OF assms])
    finally show "h = g" by simp
  qed
  have rec: "getAlphaLabel g = getAlphaLabel (g div 26 - 1) @ [fromCharCode (65 + g mod 26)]"
    using getAlphaLabel_loop_step [of "g + 1"] assms by (simp add: getAlphaLabel_def)
  have up: "list_all isUpperLetter (getAlphaLabel g)"
    using getAlphaLabel_loop_value [of "g + 1"] assms by (simp add: getAlphaLabel_def)
  have num: "index_value (Number_toString (int (batch_id b) + 1)) = int (batch_id b) + 1"
    "list_all isDigit (Number_toString (int (batch_id b) + 1))"
    using Number_toString_decimal [of "int (batch_id b) + 1"] by simp_all
  show ?thesis
    using v [OF assms] inj rec up num getAlphaLabel_values
    by (simp add: setLabel_def)
qed

theorem labels_bijective_base26_witness:
  "setLabel numeric \<lparr> batch_id = 2, items = [] \<rparr> = lit ''Set 3''
   \<and> setLabel alpha \<lparr> batch_id = 2, items = [] \<rparr> = lit ''Set C''
   \<and> letters_value (getAlphaLabel 702) = 703
   \<and> getAlphaLabel 702 = lit ''AAA''"
proof -
  have e: "Number_toString (int 2 + 1) = lit ''3''" "getAlphaLabel (int 2) = lit ''C''"
    "lit ''Set '' @ lit ''3'' = lit ''Set 3''" "lit ''Set '' @ lit ''C'' = lit ''Set C''"
    by code_simp+
  have z: "(0::int) \<le> 702" by simp
  note t = labels_bijective_base26 [OF z, of "\<lparr> batch_id = 2, items = [] \<rparr>"]
  have "setLabel numeric \<lparr> batch_id = 2, items = [] \<rparr> = lit ''Set 3''"
    using t e by (simp only: BatchSet.simps)
  moreover have "setLabel alpha \<lparr> batch_id = 2, items = [] \<rparr> = lit ''Set C''"
    using t e by (simp only: BatchSet.simps)
  moreover have "letters_value (getAlphaLabel 702) = 703"
  proof -
    from t have "letters_value (getAlphaLabel 702) = 702 + 1" by blast
    then show ?thesis by simp
  qed
  moreover have "getAlphaLabel 702 = lit ''AAA''"
    using t by blast
  ultimately show ?thesis by blast
qed

text \<open>
  Claim C9. For every group of a partition and every item of it, the offset computed
  for the group is the sum of the sizes of the groups before it, the item is the line
  at position offset plus in-group index of the whole input, and the string copied for
  the item is, in this order, the decimal numeral of that position counted from 1
  followed by a full stop and a space when indexing is on, the custom prefix followed
  by a space when the prefix is not empty, and the item's text. The text written to
  the clipboard is these strings joined by line feeds.
\<close>

theorem copy_format:
  assumes "processedData inputText mode n = Some p"
    and "k < length (sets p)" and "j < length (items (sets p ! k))"
  shows "\<exists>offset. getFormattedCount k (sets p) = Inr offset
     \<and> offset = (\<Sum>i<k. length (items (sets p ! i)))
     \<and> offset + j < length (normalize_lines inputText)
     \<and> normalize_lines inputText ! (offset + j) = items (sets p ! k) ! j
     \<and> copySet_items useIndexing prefix (items (sets p ! k)) offset ! j
         = (if useIndexing then Number_toString (int offset + int j + 1) @ lit ''. '' else [])
           @ (if prefix \<noteq> [] then prefix @ lit '' '' else [])
           @ items (sets p ! k) ! j
     \<and> index_value (Number_toString (int offset + int j + 1)) = int offset + int j + 1
     \<and> list_all isDigit (Number_toString (int offset + int j + 1))
     \<and> length (copySet_items useIndexing prefix (items (sets p ! k)) offset)
         = length (items (sets p ! k))
     \<and> copySet useIndexing prefix (items (sets p ! k)) offset
         = join [0x0A] (copySet_items useIndexing prefix (items (sets p ! k)) offset)"
proof -
  have c: "concat (map items (sets p)) = normalize_lines inputText"
    using assms(1) by (rule processedData_concat)
  obtain offset where o: "getFormattedCount k (sets p) = Inr offset"
    "offset = (\<Sum>i<k. length (items (sets p ! i)))"
    "offset + j < length (normalize_lines inputText)"
    "normalize_lines inputText ! (offset + j) = items (sets p ! k) ! j"
    using copy_format_aux [OF c assms(2) assms(3)] by blast
  have f: "copySet_items useIndexing prefix (items (sets p ! k)) offset ! j
         = (if useIndexing then Number_toString (int offset + int j + 1) @ lit ''. '' else [])
           @ (if prefix \<noteq> [] then prefix @ lit '' '' else [])
           @ items (sets p ! k) ! j"
    using assms(3) by (simp add: copySet_items_nth formatItem_def Let_def)
  have d: "index_value (Number_toString (int offset + int j + 1)) = int offset + int j + 1"
    "list_all isDigit (Number_toString (int offset + int j + 1))"
    using Number_toString_decimal [of "int offset + int j + 1"] by simp_all
  have l: "length (copySet_items useIndexing prefix (items (sets p ! k)) offset)
         = length (items (sets p ! k))"
    by (simp add: copySet_items_def)
  show ?thesis
    using o f d l by (auto simp: copySet_def)
qed

theorem copy_format_witness:
  "getFormattedCount 1
     [\<lparr> batch_id = 0, items = [lit ''a'', lit ''b''] \<rparr>,
      \<lparr> batch_id = 1, items = [lit ''c'', lit ''d''] \<rparr>,
      \<lparr> batch_id = 2, items = [lit ''e''] \<rparr>] = Inr 2
   \<and> normalize_lines (join [0x0A] [lit ''a'', lit ''b'', lit ''c'', lit ''d'', lit ''e'']) ! 3
       = lit ''d''
   \<and> copySet_items True (lit ''Day'') [lit ''c'', lit ''d''] 2 ! 1 = lit ''4. Day d''
   \<and> copySet True (lit ''Day'') [lit ''c'', lit ''d''] 2
       = lit ''3. Day c'' @ [0x0A] @ lit ''4. Day d''"
proof -
  let ?ss = "[\<lparr> batch_id = 0, items = [lit ''a'', lit ''b''] \<rparr>,
              \<lparr> batch_id = 1, items = [lit ''c'', lit ''d''] \<rparr>,
              \<lparr> batch_id = 2, items = [lit ''e''] \<rparr>]"
  let ?p = "\<lparr> sets = ?ss, totalItems = 5 \<rparr>"
  let ?text = "join [0x0A] [lit ''a'', lit ''b'', lit ''c'', lit ''d'', lit ''e'']"
  have h: "1 < length (sets ?p)" "1 < length (items (sets ?p ! 1))"
    by simp_all
  obtain offset where o: "getFormattedCount 1 (sets ?p) = Inr offset"
    "offset = (\<Sum>i<1. length (items (sets ?p ! i)))"
    "normalize_lines ?text ! (offset + 1) = items (sets ?p ! 1) ! 1"
    using copy_format [OF processedData_five h, of True "lit ''Day''"] by blast
  have "offset = 2" using o(2) by simp
  then have "getFormattedCount 1 ?ss = Inr 2" "normalize_lines ?text ! 3 = lit ''d''"
    using o(1,3) by (simp_all del: join.simps)
  then show ?thesis using copySet_five by blast
qed

section \<open>Properties of the categorization gateway\<close>

lemma slice_prefix: "0 \<le> n \<Longrightarrow> slice xs 0 n = take (nat n) xs"
  using slice_window [of 0 n xs] by simp

lemma lit_nonempty: "lit (c # cs) \<noteq> []"
  by (simp add: lit_def)

lemma categorizeTitles_request:
  assumes "apiKey \<noteq> []" "titles \<noteq> []"
  shows "categorizeTitles ai titles apiKey =
     (let request = \<lparr> model = lit ''gemini-2.5-flash'', promptTitles = take 500 titles \<rparr>
      in case handle_response (ai request) of
           Inl error \<Rightarrow> (Inl error, \<lparr> requests = [request], console = [error] \<rparr>)
         | Inr result \<Rightarrow> (Inr result, \<lparr> requests = [request], console = [] \<rparr>))"
  using assms by (simp add: categorizeTitles_def slice_prefix Let_def)

text \<open>
  Claim C2. The gateway validates in this order. With an empty credential it fails with
  the missing-key error and sends no request, whatever the titles. Otherwise, with no
  titles it returns the empty category list and sends no request. Otherwise it sends
  exactly one request, built from the first 500 titles, and its result is what the
  response handling makes of the reply. The cut is silent: the call behaves exactly as
  the call on the first 500 titles.
\<close>

theorem categorize_validation_order:
  "(apiKey = [] \<longrightarrow>
      categorizeTitles ai titles apiKey =
        (Inl (Error (lit ''API Key is missing. Please configure it in the settings.'')),
         \<lparr> requests = [], console = [] \<rparr>))
   \<and> (apiKey \<noteq> [] \<and> titles = [] \<longrightarrow>
      categorizeTitles ai titles apiKey =
        (Inr (JObject [(lit ''categories'', JArray [])]), \<lparr> requests = [], console = [] \<rparr>))
   \<and> (apiKey \<noteq> [] \<and> titles \<noteq> [] \<longrightarrow>
      requests (snd (categorizeTitles ai titles apiKey)) =
        [\<lparr> model = lit ''gemini-2.5-flash'', promptTitles = take 500 titles \<rparr>]
      \<and> fst (categorizeTitles ai titles apiKey) =
        handle_response (ai \<lparr> model = lit ''gemini-2.5-flash'', promptTitles = take 500 titles \<rparr>))
   \<and> length (take 500 titles) \<le> 500
   \<and> (500 < length titles \<longrightarrow> length (take 500 titles) = 500)
   \<and> categorizeTitles ai titles apiKey = categorizeTitles ai (take 500 titles) apiKey"
proof -
  have a: "apiKey = [] \<Longrightarrow> categorizeTitles ai titles apiKey =
        (Inl (Error (lit ''API Key is missing. Please configure it in the settings.'')),
         \<lparr> requests = [], console = [] \<rparr>)" for titles
    by (simp add: categorizeTitles_def)
  have b: "apiKey \<noteq> [] \<Longrightarrow> titles = [] \<Longrightarrow> categorizeTitles ai titles apiKey =
        (Inr (JObject [(lit ''categories'', JArray [])]), \<lparr> requests = [], console = [] \<rparr>)"
    by (simp add: categorizeTitles_def)
  have c: "requests (snd (categorizeTitles ai titles apiKey)) =
        [\<lparr> model = lit ''gemini-2.5-flash'', promptTitles = take 500 titles \<rparr>]
      \<and> fst (categorizeTitles ai titles apiKey) =
        handle_response (ai \<lparr> model = lit ''gemini-2.5-flash'', promptTitles = take 500 titles \<rparr>)"
    if "apiKey \<noteq> []" "titles \<noteq> []"
    unfolding categorizeTitles_request [OF that] Let_def by (simp split: sum.splits)
  have d: "categorizeTitles ai titles apiKey = categorizeTitles ai (take 500 titles) apiKey"
  proof (cases "apiKey = []")
    case True
    then show ?thesis by (simp add: categorizeTitles_def)
  next
    case k: False
    show ?thesis
    proof (cases "titles = []")
      case True
      then show ?thesis by simp
    next
      case False
      then have "take 500 titles \<noteq> []" by (cases titles) simp_all
      then show ?thesis
        by (simp add: categorizeTitles_request [OF k False] categorizeTitles_request [OF k])
    qed
  qed
  show ?thesis using a b c d by simp
qed

theorem categorize_validation_order_witness:
  "categorizeTitles (replies None) [] [] =
     (Inl (Error (lit ''API Key is missing. Please configure it in the settings.'')),
      \<lparr> requests = [], console = [] \<rparr>)
   \<and> categorizeTitles (replies None) [] (lit ''k'') =
     (Inr (JObject [(lit ''categories'', JArray [])]), \<lparr> requests = [], console = [] \<rparr>)
   \<and> requests (snd (categorizeTitles (replies None) (replicate 501 (lit ''t'')) (lit ''k''))) =
     [\<lparr> model = lit ''gemini-2.5-flash'', promptTitles = take 500 (replicate 501 (lit ''t'')) \<rparr>]
   \<and> length (take 500 (replicate 501 (lit ''t''))) = 500"
proof -
  have k: "lit ''k'' \<noteq> []" by (rule lit_nonempty)
  have t: "replicate 501 (lit ''t'') \<noteq> []" "500 < length (replicate 501 (lit ''t''))"
    by simp_all
  show ?thesis
    using categorize_validation_order [of "[]" "replies None" "[]"]
      categorize_validation_order [of "lit ''k''" "replies None" "[]"]
      categorize_validation_order [of "lit ''k''" "replies None" "replicate 501 (lit ''t'')"]
      k t
    by blast
qed


lemma handle_response_cases:
  "handle_response (Inl e) = Inl e"
  "handle_response (Inr None) = Inl (Error (lit ''No response from AI''))"
  "handle_response (Inr (Some [])) = Inl (Error (lit ''No response from AI''))"
  "text \<noteq> [] \<Longrightarrow> JSON_parse text = None \<Longrightarrow> handle_response (Inr (Some text)) = Inl SyntaxError"
  "text \<noteq> [] \<Longrightarrow> JSON_parse text = Some v \<Longrightarrow> handle_response (Inr (Some text)) = Inr v"
  by (simp_all add: handle_response_def)

text \<open>
  Claim C7, as amended. With a credential and at least one title: a reply without text
  (missing or empty) fails with the no-response error; a text that is not JSON fails
  with the parser's syntax error; a rejection of the service is passed on; every
  failure is written to the console once. Any text that is JSON is returned as parsed:
  the value is not checked against the schema and not compared with the titles sent.
\<close>

theorem response_handling:
  fixes ai :: backend
  assumes "apiKey \<noteq> []" "titles \<noteq> []"
  defines "request \<equiv> \<lparr> model = lit ''gemini-2.5-flash'', promptTitles = take 500 titles \<rparr>"
  shows "(ai request = Inr None \<or> ai request = Inr (Some []) \<longrightarrow>
            categorizeTitles ai titles apiKey =
              (Inl (Error (lit ''No response from AI'')),
               \<lparr> requests = [request], console = [Error (lit ''No response from AI'')] \<rparr>))
     \<and> (\<forall>text. ai request = Inr (Some text) \<and> text \<noteq> [] \<and> JSON_parse text = None \<longrightarrow>
            categorizeTitles ai titles apiKey =
              (Inl SyntaxError, \<lparr> requests = [request], console = [SyntaxError] \<rparr>))
     \<and> (\<forall>text v. ai request = Inr (Some text) \<and> text \<noteq> [] \<and> JSON_parse text = Some v \<longrightarrow>
            categorizeTitles ai titles apiKey =
              (Inr v, \<lparr> requests = [request], console = [] \<rparr>))
     \<and> (\<forall>e. ai request = Inl e \<longrightarrow>
            categorizeTitles ai titles apiKey =
              (Inl e, \<lparr> requests = [request], console = [e] \<rparr>))"
  unfolding categorizeTitles_request [OF assms(1,2)] Let_def request_def
  by (auto simp: handle_response_cases)

lemma JSON_parse_examples:
  \<open>JSON_parse (lit ''{}'') = Some (JObject [])\<close>
  \<open>JSON_parse (lit ''{'') = None\<close>
  \<open>JSON_parse (lit ''{"categories":[{"name":"A","items":["x","y"]}]}'')
     = Some (JObject [(lit ''categories'',
          JArray [JObject [(lit ''name'', JString (lit ''A'')),
                           (lit ''items'', JArray [JString (lit ''x''), JString (lit ''y'')])]])])\<close>
  by code_simp+

theorem response_handling_witness:
  \<open>categorizeTitles (replies (Some (lit ''{"categories":[{"name":"A","items":["x","y"]}]}'')))
       [lit ''x'', lit ''y''] (lit ''k'')
     = (Inr (JObject [(lit ''categories'',
          JArray [JObject [(lit ''name'', JString (lit ''A'')),
                           (lit ''items'', JArray [JString (lit ''x''), JString (lit ''y'')])]])]),
        \<lparr> requests = [\<lparr> model = lit ''gemini-2.5-flash'',
                         promptTitles = take 500 [lit ''x'', lit ''y''] \<rparr>], console = [] \<rparr>)
   \<and> categorizeTitles (replies (Some (lit ''{''))) [lit ''x'', lit ''y''] (lit ''k'')
     = (Inl SyntaxError,
        \<lparr> requests = [\<lparr> model = lit ''gemini-2.5-flash'',
                         promptTitles = take 500 [lit ''x'', lit ''y''] \<rparr>],
          console = [SyntaxError] \<rparr>)
   \<and> categorizeTitles (replies None) [lit ''x'', lit ''y''] (lit ''k'')
     = (Inl (Error (lit ''No response from AI'')),
        \<lparr> requests = [\<lparr> model = lit ''gemini-2.5-flash'',
                         promptTitles = take 500 [lit ''x'', lit ''y''] \<rparr>],
          console = [Error (lit ''No response from AI'')] \<rparr>)\<close>
proof -
  have k: "lit ''k'' \<noteq> []" by (rule lit_nonempty)
  have t: "[lit ''x'', lit ''y''] \<noteq> []" by simp
  have n: \<open>lit ''{"categories":[{"name":"A","items":["x","y"]}]}'' \<noteq> []\<close> "lit ''{'' \<noteq> []"
    by (rule lit_nonempty)+
  show ?thesis
    using response_handling [OF k t, of \<open>replies (Some (lit ''{"categories":[{"name":"A","items":["x","y"]}]}''))\<close>]
      response_handling [OF k t, of "replies (Some (lit ''{''))"]
      response_handling [OF k t, of "replies None"]
      JSON_parse_examples n
    unfolding replies_def by blast
qed

text \<open>
  The claim as first stated makes a text that violates the schema a decode failure.
  The text \<open>{}\<close> is JSON without a \<open>categories\<close> member, and the gateway returns it.
\<close>

theorem schema_not_checked_counterexample:
  "fst (categorizeTitles (replies (Some (lit ''{}''))) [lit ''a'', lit ''b''] (lit ''key''))
     = Inr (JObject [])
   \<and> \<not> matches_schema (JObject [])"
  by code_simp

section \<open>Properties of the analyzer\<close>

lemma Set_from_snoc: "Set_from (xs @ [x]) = Set_add (Set_from xs) x"
  by (simp add: Set_from_def)

lemma count_list_snoc: "count_list (xs @ [x]) t = count_list xs t + (if x = t then 1 else 0)"
  by (induction xs) auto

lemma count_list_pos: "x \<in> set xs \<Longrightarrow> 0 < count_list xs x"
  by (induction xs) auto

lemma map_of_counted:
  "map_of (counted ls) x = (if x \<in> set ls then Some (Number (int (count_list ls x))) else None)"
  by (simp add: counted_def map_of_map_restrict restrict_map_def)

lemma fst_counted: "fst ` set (counted ls) = set ls"
  by (force simp: counted_def)

lemma count_line_counted:
  assumes "x \<notin> set Object_prototype_names"
  shows "count_line (counted pre) x = counted (pre @ [x])"
proof (cases "x \<in> set pre")
  case True
  have g: "get_property (counted pre) x = Prim (Number (int (count_list pre x)))"
    using True by (simp add: get_property_def map_of_counted)
  have "count_list pre x \<noteq> 0" using count_list_pos [OF True] by simp
  then have v: "plus_one (or_else (get_property (counted pre) x) (Prim (Number 0)))
        = Number (int (count_list pre x) + 1)"
    by (simp add: g or_else_def truthy_def plus_one_def)
  have "count_line (counted pre) x
        = map (\<lambda>(k, w). if k = x then (k, Number (int (count_list pre x) + 1)) else (k, w)) (counted pre)"
    using True by (simp add: count_line_def v set_property_def fst_counted)
  also have "\<dots> = counted (pre @ [x])"
    using True by (auto simp: counted_def Set_from_snoc Set_add_def count_list_snoc)
  finally show ?thesis .
next
  case False
  have n: "x \<noteq> lit ''__proto__''" "x \<notin> set Object_prototype_functions"
    using assms by (simp_all add: Object_prototype_names_def)
  have g: "get_property (counted pre) x = Prim Undefined"
    using False n by (simp add: get_property_def map_of_counted)
  have v: "plus_one (or_else (get_property (counted pre) x) (Prim (Number 0))) = Number 1"
    by (simp add: g or_else_def truthy_def plus_one_def)
  have "count_line (counted pre) x = counted pre @ [(x, Number 1)]"
    using False n by (simp add: count_line_def v set_property_def fst_counted)
  also have "\<dots> = counted (pre @ [x])"
    using False by (auto simp: counted_def Set_from_snoc Set_add_def count_list_snoc)
  finally show ?thesis .
qed

lemma foldl_count_line_counted:
  "\<forall>x \<in> set xs. x \<notin> set Object_prototype_names \<Longrightarrow>
   foldl count_line (counted pre) xs = counted (pre @ xs)"
proof (induction xs arbitrary: pre)
  case Nil
  then show ?case by simp
next
  case (Cons x xs)
  then have "foldl count_line (counted pre) (x # xs) = foldl count_line (counted (pre @ [x])) xs"
    by (simp add: count_line_counted)
  also have "\<dots> = counted ((pre @ [x]) @ xs)" using Cons by simp
  finally show ?case by simp
qed

lemma freqMap_safe:
  "\<forall>x \<in> set ls. x \<notin> set Object_prototype_names \<Longrightarrow>
   foldl count_line [] ls = map (\<lambda>t. (t, Number (int (count_list ls t)))) (Set_from ls)"
  using foldl_count_line_counted [of ls "[]"] by (simp add: counted_def Set_from_def)


lemma insort_key_map_pair:
  assumes "\<And>t. fst (f t) = t"
  shows "insort_key (\<lambda>e. h (fst e)) (f x) (map f ys) = map f (insort_key h x ys)"
  using assms by (induction ys) simp_all

lemma sort_key_map_pair:
  assumes "\<And>t. fst (f t) = t"
  shows "sort_key (\<lambda>e. h (fst e)) (map f ks) = map f (sort_key h ks)"
  using insort_key_map_pair [of f h, OF assms] by (induction ks) simp_all

lemma Object_entries_map:
  assumes "\<And>t. fst (f t) = t"
  shows "Object_entries (map f ks) = map f (enumeration_order ks)"
  using sort_key_map_pair [of f index_value, OF assms]
  by (simp add: Object_entries_def enumeration_order_def filter_map comp_def assms)

lemma insert_sorted_numeric:
  assumes "\<exists>n. count x = Number n" "\<forall>y \<in> set ys. \<exists>n. count y = Number n"
  shows "insert_sorted (SortCompare by_count_descending) x ys
         = insort_key (\<lambda>e. - numeric_count (count e)) x ys"
  using assms
  by (induction ys)
     (auto simp: SortCompare_def by_count_descending_def minus_def numeric_count_def)

lemma Array_sort_numeric:
  assumes "\<forall>y \<in> set xs. \<exists>n. count y = Number n"
  shows "Array_sort (SortCompare by_count_descending) xs
         = sort_key (\<lambda>e. - numeric_count (count e)) xs"
  using assms
proof (induction xs)
  case Nil
  then show ?case by (simp add: Array_sort_def)
next
  case (Cons x xs)
  then have ih: "foldr (insert_sorted (SortCompare by_count_descending)) xs []
        = sort_key (\<lambda>e. - numeric_count (count e)) xs"
    by (simp add: Array_sort_def)
  have "\<forall>y \<in> set (sort_key (\<lambda>e. - numeric_count (count e)) xs). \<exists>n. count y = Number n"
    using Cons.prems by simp
  then show ?case
    using Cons.prems by (simp add: Array_sort_def ih insert_sorted_numeric)
qed

lemma trim_empty_iff: "(trim s = []) = (\<forall>c \<in> set s. isWhiteSpace c)"
proof
  assume "trim s = []"
  then have "dropWhile isWhiteSpace (rev (dropWhile isWhiteSpace s)) = []"
    by (simp add: trim_def)
  then have a: "\<forall>c \<in> set (dropWhile isWhiteSpace s). isWhiteSpace c"
    by (simp add: dropWhile_eq_Nil_conv)
  have "dropWhile isWhiteSpace s = []"
  proof (rule ccontr)
    assume n: "dropWhile isWhiteSpace s \<noteq> []"
    then have "\<not> isWhiteSpace (hd (dropWhile isWhiteSpace s))" by (rule hd_dropWhile)
    moreover have "hd (dropWhile isWhiteSpace s) \<in> set (dropWhile isWhiteSpace s)"
      using n by simp
    ultimately show False using a by blast
  qed
  then show "\<forall>c \<in> set s. isWhiteSpace c" by (simp add: dropWhile_eq_Nil_conv)
next
  assume "\<forall>c \<in> set s. isWhiteSpace c"
  then have d: "dropWhile isWhiteSpace s = []" by (simp only: dropWhile_eq_Nil_conv)
  show "trim s = []" unfolding trim_def d by simp
qed

lemma split_newline_nonempty: "split_newline s \<noteq> []"
  by (induction s) (auto split: list.splits)

lemma set_split_newline: "\<Union> (set ` set (split_newline s)) = set s - {0x0A}"
proof (induction s)
  case Nil
  then show ?case by simp
next
  case (Cons c s)
  obtain l ls where sp: "split_newline s = l # ls"
    using split_newline_nonempty [of s] by (cases "split_newline s") auto
  show ?case
    using Cons sp by (auto split: if_splits)
qed

lemma normalize_lines_empty_iff: "(normalize_lines s = []) = (trim s = [])"
proof -
  have w: "isWhiteSpace 0x0A" by (simp add: isWhiteSpace_def)
  have "(normalize_lines s = []) = (\<forall>l \<in> set (split_newline s). \<forall>c \<in> set l. isWhiteSpace c)"
    by (auto simp: normalize_lines_def filter_empty_conv trim_empty_iff)
  also have "\<dots> = (\<forall>c \<in> \<Union> (set ` set (split_newline s)). isWhiteSpace c)"
    by auto
  also have "\<dots> = (\<forall>c \<in> set s. isWhiteSpace c)"
    unfolding set_split_newline using w by auto
  finally show ?thesis by (simp add: trim_empty_iff)
qed

lemma handleAnalyze_None: "(handleAnalyze now inputText = None) = (normalize_lines inputText = [])"
  by (simp add: handleAnalyze_def normalize_lines_empty_iff Let_def)

lemma handleAnalyze_fields:
  assumes "handleAnalyze now inputText = Some r"
  defines "lines \<equiv> normalize_lines inputText"
  shows "total_n (stats_an r) = length lines"
    and "unique (stats_an r) = length (Set_from lines)"
    and "duplicates (stats_an r) = int (length lines) - int (length (Set_from lines))"
    and "processedAt (stats_an r) = now"
    and "uniqueList r = sort (Set_from lines)"
    and "frequencyMap r = Array_sort (SortCompare by_count_descending)
           (map (\<lambda>(t, c). \<lparr> title = t, count = c \<rparr>) (Object_entries (foldl count_line [] lines)))"
    and "duplicateList r = map title (filter (\<lambda>item. greater_than (count item) 1) (frequencyMap r))"
  using assms(1) unfolding lines_def handleAnalyze_def Let_def
  by (auto split: if_splits)

lemma frequencyMap_safe:
  assumes "handleAnalyze now inputText = Some r"
    and "\<forall>l \<in> set (normalize_lines inputText). l \<notin> set Object_prototype_names"
  shows "frequencyMap r
         = count_table (normalize_lines inputText)
             (enumeration_order (Set_from (normalize_lines inputText)))"
proof -
  let ?lines = "normalize_lines inputText"
  let ?f = "\<lambda>t. (t, Number (int (count_list ?lines t)))"
  have e: "Object_entries (foldl count_line [] ?lines) = map ?f (enumeration_order (Set_from ?lines))"
    unfolding freqMap_safe [OF assms(2)] by (rule Object_entries_map) simp
  have m: "map (\<lambda>(t, c). \<lparr> title = t, count = c \<rparr>) (Object_entries (foldl count_line [] ?lines))
        = map (\<lambda>t. \<lparr> title = t, count = Number (int (count_list ?lines t)) \<rparr>)
            (enumeration_order (Set_from ?lines))"
    unfolding e by simp
  show ?thesis
    unfolding handleAnalyze_fields(6) [OF assms(1)] m count_table_def
    by (rule Array_sort_numeric) simp
qed


lemma set_enumeration_order [simp]: "set (enumeration_order ks) = set ks"
  by (auto simp: enumeration_order_def)

lemma distinct_enumeration_order: "distinct ks \<Longrightarrow> distinct (enumeration_order ks)"
  by (auto simp: enumeration_order_def)

lemma length_enumeration_order [simp]: "length (enumeration_order ks) = length ks"
  using sum_length_filter_compl [of isArrayIndex ks] by (simp add: enumeration_order_def)

lemma enumeration_order_no_index:
  "\<forall>k \<in> set ks. \<not> isArrayIndex k \<Longrightarrow> enumeration_order ks = ks"
  by (simp add: enumeration_order_def filter_empty_conv)

lemma count_table_props:
  fixes lines ks
  defines "fm \<equiv> count_table lines ks"
  shows "map title fm = map title fm"
    and "set (map title fm) = set ks"
    and "distinct ks \<Longrightarrow> distinct (map title fm)"
    and "length fm = length ks"
    and "\<forall>e \<in> set fm. count e = Number (int (count_list lines (title e)))"
    and "sorted (map (\<lambda>e. - numeric_count (count e)) fm)"
    and "filter (\<lambda>e. count e = Number c) fm
         = map (\<lambda>t. \<lparr> title = t, count = Number c \<rparr>)
             (filter (\<lambda>t. int (count_list lines t) = c) ks)"
proof -
  let ?mk = "\<lambda>t. \<lparr> title = t, count = Number (int (count_list lines t)) \<rparr>"
  let ?key = "\<lambda>e. - numeric_count (count e)"
  have fm: "fm = sort_key ?key (map ?mk ks)" by (simp add: fm_def count_table_def)
  show "map title fm = map title fm" ..
  show "set (map title fm) = set ks" by (force simp: fm)
  show "length fm = length ks" by (simp add: fm)
  show "\<forall>e \<in> set fm. count e = Number (int (count_list lines (title e)))"
    by (auto simp: fm)
  show "sorted (map ?key fm)" unfolding fm by (rule sorted_sort_key)
  show "distinct (map title fm)" if "distinct ks"
  proof -
    have "inj_on title (set (map ?mk ks))" by (auto simp: inj_on_def)
    moreover have "distinct (map ?mk ks)" using that by (simp add: distinct_map inj_on_def)
    ultimately show ?thesis by (simp add: fm distinct_map)
  qed
  have "filter (\<lambda>e. count e = Number c) fm = filter (\<lambda>e. ?key e = - c) fm"
    by (rule filter_cong) (auto simp: fm numeric_count_def)
  also have "\<dots> = filter (\<lambda>e. ?key e = - c) (map ?mk ks)"
    unfolding fm by (rule sort_key_stable)
  also have "\<dots> = map (\<lambda>t. \<lparr> title = t, count = Number c \<rparr>)
             (filter (\<lambda>t. int (count_list lines t) = c) ks)"
    by (induction ks) (simp_all add: numeric_count_def)
  finally show "filter (\<lambda>e. count e = Number c) fm
         = map (\<lambda>t. \<lparr> title = t, count = Number c \<rparr>)
             (filter (\<lambda>t. int (count_list lines t) = c) ks)" .
qed

lemma sum_list_insort_key:
  fixes g :: "'a \<Rightarrow> int"
  shows "sum_list (map g (insort_key f x xs)) = g x + sum_list (map g xs)"
  by (induction xs) simp_all

lemma sum_list_sort_key:
  fixes g :: "'a \<Rightarrow> int"
  shows "sum_list (map g (sort_key f xs)) = sum_list (map g xs)"
  by (induction xs) (simp_all add: sum_list_insort_key)

lemma sum_list_filter_split:
  fixes g :: "'a \<Rightarrow> int"
  shows "sum_list (map g (filter P xs)) + sum_list (map g (filter (\<lambda>x. \<not> P x) xs))
         = sum_list (map g xs)"
  by (induction xs) simp_all

lemma sum_list_enumeration_order:
  fixes g :: "jsstring \<Rightarrow> int"
  shows "sum_list (map g (enumeration_order ks)) = sum_list (map g ks)"
  using sum_list_filter_split [of g isArrayIndex ks]
  by (simp add: enumeration_order_def sum_list_sort_key)

lemma sum_count_Set_from:
  "sum_list (map (\<lambda>t. int (count_list ls t)) (Set_from ls)) = int (length ls)"
proof -
  have "sum_list (map (count_list ls) (Set_from ls)) = sum (count_list ls) (set (Set_from ls))"
    by (rule sum_list_distinct_conv_sum_set) simp
  also have "\<dots> = length ls"
    using sum_count_set [of ls "set ls"] by simp
  finally have n: "sum_list (map (count_list ls) (Set_from ls)) = length ls" .
  have c: "sum_list (map (\<lambda>t. int (count_list ls t)) ks)
           = int (sum_list (map (count_list ls) ks))" for ks
    by (induction ks) simp_all
  show ?thesis unfolding c n ..
qed

lemma analysis_counts:
  assumes "handleAnalyze now inputText = Some r"
  shows "duplicates (stats_an r) = int (total_n (stats_an r)) - int (unique (stats_an r))"
    and "unique (stats_an r) = length (uniqueList r)"
    and "total_n (stats_an r) = length (normalize_lines inputText)"
    and "unique (stats_an r) = card (set (normalize_lines inputText))"
  using handleAnalyze_fields [OF assms] by (simp_all add: length_Set_from)

lemma analysis_invariant_safe:
  assumes "handleAnalyze now inputText = Some r"
    and "\<forall>l \<in> set (normalize_lines inputText). l \<notin> set Object_prototype_names"
  shows "length (frequencyMap r) = unique (stats_an r)"
    and "sum_list (map (\<lambda>e. numeric_count (count e)) (frequencyMap r))
         = int (total_n (stats_an r))"
    and "\<forall>e \<in> set (frequencyMap r). \<exists>n\<ge>1. count e = Number n"
proof -
  let ?lines = "normalize_lines inputText"
  let ?ks = "enumeration_order (Set_from ?lines)"
  note fm = frequencyMap_safe [OF assms]
  note f = handleAnalyze_fields [OF assms(1)]
  show "length (frequencyMap r) = unique (stats_an r)"
    by (simp add: fm f count_table_def)
  have "sum_list (map (\<lambda>e. numeric_count (count e)) (frequencyMap r))
        = sum_list (map (\<lambda>t. int (count_list ?lines t)) ?ks)"
    by (simp add: fm count_table_def sum_list_sort_key comp_def numeric_count_def)
  also have "\<dots> = int (length ?lines)"
    by (simp add: sum_list_enumeration_order sum_count_Set_from)
  finally show "sum_list (map (\<lambda>e. numeric_count (count e)) (frequencyMap r))
         = int (total_n (stats_an r))"
    by (simp add: f)
  show "\<forall>e \<in> set (frequencyMap r). \<exists>n\<ge>1. count e = Number n"
  proof
    fix e assume "e \<in> set (frequencyMap r)"
    then obtain t where t: "t \<in> set ?lines" "e = \<lparr> title = t, count = Number (int (count_list ?lines t)) \<rparr>"
      by (auto simp: fm count_table_def)
    then have "0 < count_list ?lines t" by (simp add: count_list_pos)
    then show "\<exists>n\<ge>1. count e = Number n" using t(2) by simp
  qed
qed

text \<open>
  Claim C6, as amended. Take an input in which no line is a name that
  \<open>Object.prototype\<close> defines, and for which the analysis gives a result. The frequency
  table holds every distinct line once, with the number of its occurrences, sorted by
  descending count. Lines of equal count stand in the order in which the counting
  object enumerates its keys: the lines that are array indices first, in ascending
  numeric order, then the other lines in the order of their first occurrence. When
  no line is an array index this is the order of first occurrence throughout. The
  duplicate list is the titles of the entries with a count above 1, in the order of
  the table.
\<close>

theorem frequency_table_order:
  assumes "handleAnalyze now inputText = Some r"
    and "\<forall>l \<in> set (normalize_lines inputText). l \<notin> set Object_prototype_names"
  defines "lines \<equiv> normalize_lines inputText"
  shows "frequencyMap r = count_table lines (enumeration_order (Set_from lines))
     \<and> set (map title (frequencyMap r)) = set lines
     \<and> distinct (map title (frequencyMap r))
     \<and> (\<forall>e \<in> set (frequencyMap r). count e = Number (int (count_list lines (title e))))
     \<and> sorted (map (\<lambda>e. - numeric_count (count e)) (frequencyMap r))
     \<and> (\<forall>c. filter (\<lambda>e. count e = Number c) (frequencyMap r)
              = map (\<lambda>t. \<lparr> title = t, count = Number c \<rparr>)
                  (filter (\<lambda>t. int (count_list lines t) = c)
                     (enumeration_order (Set_from lines))))
     \<and> duplicateList r
         = map title (filter (\<lambda>e. greater_than (count e) 1) (frequencyMap r))
     \<and> ((\<forall>l \<in> set lines. \<not> isArrayIndex l) \<longrightarrow>
          frequencyMap r = first_occurrence_table lines)"
proof -
  let ?ks = "enumeration_order (Set_from lines)"
  have fm: "frequencyMap r = count_table lines ?ks"
    unfolding lines_def by (rule frequencyMap_safe [OF assms(1,2)])
  have d: "distinct ?ks" by (simp add: distinct_enumeration_order)
  have f: "(\<forall>l \<in> set lines. \<not> isArrayIndex l) \<Longrightarrow> ?ks = Set_from lines"
    by (rule enumeration_order_no_index) simp
  note p = count_table_props [where lines = lines and ks = "?ks", folded fm]
  show ?thesis
    using fm p(2) p(3) [OF d] p(5) p(6) p(7) f
      handleAnalyze_fields(7) [OF assms(1)]
    by (simp add: first_occurrence_table_def)
qed

lemma handleAnalyze_ties:
  "handleAnalyze [] (join [0x0A] [lit ''b'', lit ''10'', lit ''9'', lit ''a'', lit ''b''])
   = Some \<lparr> stats_an = \<lparr> total_n = 5, unique = 4, duplicates = 1, processedAt = [] \<rparr>,
            uniqueList = [lit ''10'', lit ''9'', lit ''a'', lit ''b''],
            duplicateList = [lit ''b''],
            frequencyMap = [\<lparr> title = lit ''b'', count = Number 2 \<rparr>,
                            \<lparr> title = lit ''9'', count = Number 1 \<rparr>,
                            \<lparr> title = lit ''10'', count = Number 1 \<rparr>,
                            \<lparr> title = lit ''a'', count = Number 1 \<rparr>] \<rparr>"
  by code_simp

lemma safe_lines_ties:
  "\<forall>l \<in> set (normalize_lines (join [0x0A] [lit ''b'', lit ''10'', lit ''9'', lit ''a'', lit ''b''])).
     l \<notin> set Object_prototype_names"
  by code_simp

theorem frequency_table_order_witness:
  "count_table (normalize_lines (join [0x0A] [lit ''b'', lit ''10'', lit ''9'', lit ''a'', lit ''b'']))
     (enumeration_order (Set_from
        (normalize_lines (join [0x0A] [lit ''b'', lit ''10'', lit ''9'', lit ''a'', lit ''b'']))))
   = [\<lparr> title = lit ''b'', count = Number 2 \<rparr>,
      \<lparr> title = lit ''9'', count = Number 1 \<rparr>,
      \<lparr> title = lit ''10'', count = Number 1 \<rparr>,
      \<lparr> title = lit ''a'', count = Number 1 \<rparr>]"
proof -
  from frequency_table_order [OF handleAnalyze_ties safe_lines_ties]
  have "frequencyMap
          \<lparr> stats_an = \<lparr> total_n = 5, unique = 4, duplicates = 1, processedAt = [] \<rparr>,
            uniqueList = [lit ''10'', lit ''9'', lit ''a'', lit ''b''],
            duplicateList = [lit ''b''],
            frequencyMap = [\<lparr> title = lit ''b'', count = Number 2 \<rparr>,
                            \<lparr> title = lit ''9'', count = Number 1 \<rparr>,
                            \<lparr> title = lit ''10'', count = Number 1 \<rparr>,
                            \<lparr> title = lit ''a'', count = Number 1 \<rparr>] \<rparr>
        = count_table
            (normalize_lines (join [0x0A] [lit ''b'', lit ''10'', lit ''9'', lit ''a'', lit ''b'']))
            (enumeration_order (Set_from
              (normalize_lines (join [0x0A] [lit ''b'', lit ''10'', lit ''9'', lit ''a'', lit ''b'']))))"
    by (rule conjunct1)
  then show ?thesis
    unfolding AnalysisResult.select_convs by (rule sym)
qed

text \<open>
  The claim as first stated puts lines of equal count in the order of their first
  occurrence. For the two lines \<open>2\<close> and \<open>1\<close> the table has \<open>1\<close> before \<open>2\<close>.
\<close>

theorem tie_order_counterexample:
  "map_option frequencyMap (handleAnalyze [] (join [0x0A] [lit ''2'', lit ''1'']))
     = Some [\<lparr> title = lit ''1'', count = Number 1 \<rparr>, \<lparr> title = lit ''2'', count = Number 1 \<rparr>]
   \<and> first_occurrence_table (normalize_lines (join [0x0A] [lit ''2'', lit ''1'']))
     = [\<lparr> title = lit ''2'', count = Number 1 \<rparr>, \<lparr> title = lit ''1'', count = Number 1 \<rparr>]
   \<and> map_option frequencyMap (handleAnalyze [] (join [0x0A] [lit ''2'', lit ''1'']))
     \<noteq> Some (first_occurrence_table (normalize_lines (join [0x0A] [lit ''2'', lit ''1''])))"
  by code_simp

text \<open>
  Claim C3 does not hold of the code. For the single line \<open>__proto__\<close> the analysis
  counts one line and one unique line, and the frequency table is empty: the sum of
  the counts is 0, not 1, and the table has 0 records, not 1. For the single line
  \<open>constructor\<close> the record's count is a string, not a number. The lemmas
  \<open>analysis_counts\<close> and \<open>analysis_invariant_safe\<close> above show that the claim holds
  for every input in which no line is a name that \<open>Object.prototype\<close> defines.
\<close>

theorem frequency_invariant_broken:
  "handleAnalyze now (lit ''__proto__'')
     = Some \<lparr> stats_an = \<lparr> total_n = 1, unique = 1, duplicates = 0, processedAt = now \<rparr>,
              uniqueList = [lit ''__proto__''], duplicateList = [], frequencyMap = [] \<rparr>
   \<and> handleAnalyze now (lit ''constructor'')
     = Some \<lparr> stats_an = \<lparr> total_n = 1, unique = 1, duplicates = 0, processedAt = now \<rparr>,
              uniqueList = [lit ''constructor''], duplicateList = [],
              frequencyMap = [\<lparr> title = lit ''constructor'',
                                count = Text (PrototypeFunction (lit ''constructor'')) 1 \<rparr>] \<rparr>"
  by code_simp

end
